theory Spec2Isabelle
  imports Main "HOL-Library.Word"
begin

unbundle bit_operations_syntax

section \<open>Bytes and big-endian appends\<close>

text \<open>
  A Go \<open>[]byte\<close> and a Go \<open>string\<close> are both sequences of bytes. The buffer is
  passed to every packer and returned extended, as \<open>PackMsg(buf []byte) []byte\<close> does.
\<close>

type_synonym byte = "8 word"
type_synonym bytes = "byte list"

text \<open>\<open>binary.BigEndian.AppendUint16/32/64\<close>: most significant byte first.\<close>

definition AppendUint16 :: "bytes \<Rightarrow> 16 word \<Rightarrow> bytes" where
  "AppendUint16 b v = b @ [ucast (drop_bit 8 v), ucast v]"

definition AppendUint32 :: "bytes \<Rightarrow> 32 word \<Rightarrow> bytes" where
  "AppendUint32 b v =
     b @ [ucast (drop_bit 24 v), ucast (drop_bit 16 v), ucast (drop_bit 8 v), ucast v]"

definition AppendUint64 :: "bytes \<Rightarrow> 64 word \<Rightarrow> bytes" where
  "AppendUint64 b v =
     b @ [ucast (drop_bit 56 v), ucast (drop_bit 48 v), ucast (drop_bit 40 v),
          ucast (drop_bit 32 v), ucast (drop_bit 24 v), ucast (drop_bit 16 v),
          ucast (drop_bit 8 v), ucast v]"

section \<open>Primitive packers\<close>

text \<open>\<open>Raw.PackMsg\<close>: the bytes are spliced in as they are.\<close>

definition Raw_PackMsg :: "bytes \<Rightarrow> bytes \<Rightarrow> bytes" where
  "Raw_PackMsg s buf = buf @ s"

text \<open>\<open>Str.PackMsg\<close>; \<open>len(s)\<close> is the number of bytes.\<close>

definition Str_PackMsg :: "bytes \<Rightarrow> bytes \<Rightarrow> bytes" where
  "Str_PackMsg s buf =
     (let l = length s in
      (if l < 32 then buf @ [0xa0 OR of_nat l]
       else if l < 0x100 then buf @ [0xd9, of_nat l]
       else if l < 0x10000 then AppendUint16 (buf @ [0xda]) (of_nat l)
       else AppendUint32 (buf @ [0xdb]) (of_nat l)) @ s)"

definition Bin_PackMsg :: "bytes \<Rightarrow> bytes \<Rightarrow> bytes" where
  "Bin_PackMsg s buf =
     (let l = length s in
      (if l < 0x100 then (buf @ [0xc4]) @ [of_nat l]
       else if l < 0x10000 then AppendUint16 (buf @ [0xc5]) (of_nat l)
       else AppendUint32 (buf @ [0xc6]) (of_nat l)) @ s)"

text \<open>
  \<open>Signed.PackMsg\<close> on an \<open>int64\<close>: the comparisons are signed (\<open>sint\<close>), the
  conversions \<open>byte(i)\<close>, \<open>uint16(i)\<close>, \<open>uint32(i)\<close> keep the low bits (\<open>ucast\<close>).
\<close>

definition Signed_PackMsg :: "64 word \<Rightarrow> bytes \<Rightarrow> bytes" where
  "Signed_PackMsg i buf =
     (if sint i > -32 \<and> sint i < 0x80 then buf @ [ucast i]
      else if sint i \<ge> -128 \<and> sint i \<le> 127 then buf @ [0xd0, ucast i]
      else if sint i \<ge> -32768 \<and> sint i \<le> 32767 then AppendUint16 (buf @ [0xd1]) (ucast i)
      else if sint i \<ge> -2147483648 \<and> sint i \<le> 2147483647
        then AppendUint32 (buf @ [0xd2]) (ucast i)
      else AppendUint64 (buf @ [0xd3]) i)"

text \<open>\<open>Unsigned.PackMsg\<close> on a \<open>uint64\<close>: the comparisons are unsigned.\<close>

definition Unsigned_PackMsg :: "64 word \<Rightarrow> bytes \<Rightarrow> bytes" where
  "Unsigned_PackMsg u buf =
     (if unat u < 0x80 then buf @ [ucast u]
      else if unat u \<le> 255 then buf @ [0xcc, ucast u]
      else if unat u \<le> 65535 then AppendUint16 (buf @ [0xcd]) (ucast u)
      else if unat u \<le> 4294967295 then AppendUint32 (buf @ [0xce]) (ucast u)
      else AppendUint64 (buf @ [0xcf]) u)"

text \<open>
  \<open>F32.PackMsg\<close> and \<open>F64.PackMsg\<close>: a float is held as its IEEE-754 bit pattern,
  which is what \<open>math.Float32bits\<close> and \<open>math.Float64bits\<close> return.
\<close>

definition F32_PackMsg :: "32 word \<Rightarrow> bytes \<Rightarrow> bytes" where
  "F32_PackMsg f buf = AppendUint32 (buf @ [0xca]) f"

definition F64_PackMsg :: "64 word \<Rightarrow> bytes \<Rightarrow> bytes" where
  "F64_PackMsg f buf = AppendUint64 (buf @ [0xcb]) f"

subsection \<open>Timestamps\<close>

text \<open>
  Of a \<open>time.Time\<close> the packers read \<open>Unix()\<close>, an \<open>int64\<close> of seconds, and
  \<open>Nanosecond()\<close>, an \<open>int\<close> that the time library keeps in \<open>[0, 999999999]\<close>.
\<close>

record GoTime =
  Unix :: "64 word"
  Nanosecond :: int

definition Time32_PackMsg :: "GoTime \<Rightarrow> bytes \<Rightarrow> bytes" where
  "Time32_PackMsg t buf = AppendUint32 (buf @ [0xd6, 0xff]) (ucast (Unix t))"

definition Time64_PackMsg :: "GoTime \<Rightarrow> bytes \<Rightarrow> bytes" where
  "Time64_PackMsg t buf =
     (let s = Unix t; ns = Nanosecond t in
      AppendUint64 (buf @ [0xd7, 0xff]) (push_bit 34 (of_int ns) OR s))"

definition Time96_PackMsg :: "GoTime \<Rightarrow> bytes \<Rightarrow> bytes" where
  "Time96_PackMsg t buf =
     (let s = Unix t; ns = Nanosecond t in
      AppendUint64 (AppendUint32 (buf @ [0xc7, 12, 0xff]) (of_int ns)) s)"

definition Time_PackMsg :: "GoTime \<Rightarrow> bytes \<Rightarrow> bytes" where
  "Time_PackMsg t buf =
     (let s = Unix t; ns = Nanosecond t in
      if s AND push_bit 34 (-1) \<noteq> 0 then Time96_PackMsg t buf
      else if ns \<noteq> 0 then Time64_PackMsg t buf
      else Time32_PackMsg t buf)"

subsection \<open>Extension values\<close>

record Ext =
  x :: "8 word"
  data :: bytes

text \<open>
  \<open>Ext.PackMsg\<close>: for the lengths that are not 1, 2, 4, 8 or 16 the length is written
  by \<open>Unsigned(l).PackMsg\<close>, as the source does.
\<close>

definition Ext_PackMsg :: "Ext \<Rightarrow> bytes \<Rightarrow> bytes" where
  "Ext_PackMsg e buf =
     (let l = length (data e) in
      ((if l = 1 then buf @ [0xd4]
        else if l = 2 then buf @ [0xd5]
        else if l = 4 then buf @ [0xd6]
        else if l = 8 then buf @ [0xd7]
        else if l = 16 then buf @ [0xd8]
        else if l \<le> 255 then Unsigned_PackMsg (of_nat l) (buf @ [0xc7])
        else if l \<le> 65535 then Unsigned_PackMsg (of_nat l) (buf @ [0xc8])
        else Unsigned_PackMsg (of_nat l) (buf @ [0xc9])) @ [x e]) @ data e)"

section \<open>Lua numbers: IEEE-754 binary64 as bit patterns\<close>

text \<open>
  A \<open>lua.LNumber\<close> is a Go \<open>float64\<close>. It is held here as its 64-bit pattern: sign
  (bit 63), biased exponent (bits 52 to 62) and fraction (bits 0 to 51). The conversions
  the encoder applies to it are written out on these fields.
\<close>

definition f64_sign :: "64 word \<Rightarrow> bool" where
  "f64_sign w = bit w 63"

definition f64_exp :: "64 word \<Rightarrow> nat" where
  "f64_exp w = unat (take_bit 11 (drop_bit 52 w))"

definition f64_frac :: "64 word \<Rightarrow> nat" where
  "f64_frac w = unat (take_bit 52 w)"

definition f64_isNaN :: "64 word \<Rightarrow> bool" where
  "f64_isNaN w = (f64_exp w = 2047 \<and> f64_frac w \<noteq> 0)"

text \<open>The significand as a natural number: the hidden bit is set unless the exponent field is 0.\<close>

definition f64_mant :: "64 word \<Rightarrow> nat" where
  "f64_mant w = (if f64_exp w = 0 then f64_frac w else 2 ^ 52 + f64_frac w)"

text \<open>
  The exponent of the last place: a finite \<open>w\<close> has the magnitude
  \<open>f64_mant w * 2 ^ f64_ulp_exp w / 2 ^ 1075\<close>.
\<close>

definition f64_ulp_exp :: "64 word \<Rightarrow> nat" where
  "f64_ulp_exp w = (if f64_exp w = 0 then 1 else f64_exp w)"

text \<open>Go's \<open>==\<close> on floats: a NaN equals nothing, and the two zeros are equal.\<close>

definition f64_eq :: "64 word \<Rightarrow> 64 word \<Rightarrow> bool" where
  "f64_eq a b =
     (\<not> f64_isNaN a \<and> \<not> f64_isNaN b \<and> (a = b \<or> (take_bit 63 a = 0 \<and> take_bit 63 b = 0)))"

text \<open>The integer part of the magnitude (truncation towards zero).\<close>

definition f64_trunc_mag :: "64 word \<Rightarrow> nat" where
  "f64_trunc_mag w =
     (let e = f64_ulp_exp w; m = f64_mant w in
      if e \<ge> 1075 then m * 2 ^ (e - 1075) else m div 2 ^ (1075 - e))"

text \<open>
  \<open>int64(v)\<close> for a \<open>float64\<close>: truncation towards zero. Where the value does not fit
  (also NaN and the infinities) Go leaves the result to the implementation; this is
  the amd64 result, the pattern \<open>0x8000000000000000\<close>.
\<close>

definition f64_trunc :: "64 word \<Rightarrow> int" where
  "f64_trunc w = (if f64_sign w then - int (f64_trunc_mag w) else int (f64_trunc_mag w))"

definition f64_to_int64 :: "64 word \<Rightarrow> 64 word" where
  "f64_to_int64 w =
     (let n = f64_trunc w in
      if f64_exp w = 2047 \<or> n < - (2 ^ 63) \<or> 2 ^ 63 \<le> n then 0x8000000000000000
      else of_int n)"

fun bitlen :: "nat \<Rightarrow> nat" where
  "bitlen n = (if n = 0 then 0 else Suc (bitlen (n div 2)))"

declare bitlen.simps [simp del]

text \<open>\<open>m / 2 ^ s\<close> rounded to the nearest integer, ties to the even one.\<close>

definition round_shift :: "nat \<Rightarrow> nat \<Rightarrow> nat" where
  "round_shift m s =
     (let q = m div 2 ^ s; r = m mod 2 ^ s in
      if 2 * r > 2 ^ s \<or> (2 * r = 2 ^ s \<and> odd q) then q + 1 else q)"

text \<open>
  \<open>float64(i)\<close> for an integer (this is \<open>lua.LNumber(i)\<close>): the nearest double, ties to
  even. A carry out of the rounded significand moves into the exponent field.
\<close>

definition mag_to_f64 :: "nat \<Rightarrow> nat" where
  "mag_to_f64 n =
     (if n = 0 then 0
      else let k = bitlen n - 1 in
        if k \<le> 52 then (1023 + k) * 2 ^ 52 + (n * 2 ^ (52 - k) - 2 ^ 52)
        else (1023 + k) * 2 ^ 52 + (round_shift n (k - 52) - 2 ^ 52))"

definition int_to_f64 :: "int \<Rightarrow> 64 word" where
  "int_to_f64 i = of_nat ((if i < 0 then 2 ^ 63 else 0) + mag_to_f64 (nat \<bar>i\<bar>))"

text \<open>
  The value of a finite double is \<open>\<plusminus> f64_mant w * 2 ^ f64_ulp_exp w / 2 ^ 1075\<close>.
  \<open>f64_is_integer w n\<close>: \<open>w\<close> is finite and its value is the integer \<open>n\<close>; the
  equation is the one between the values, multiplied by \<open>2 ^ 1075\<close>.
\<close>

definition f64_is_integer :: "64 word \<Rightarrow> int \<Rightarrow> bool" where
  "f64_is_integer w n =
     (f64_exp w \<noteq> 2047 \<and>
      (if f64_sign w then - 1 else 1) * int (f64_mant w) * 2 ^ f64_ulp_exp w = n * 2 ^ 1075)"

text \<open>The sign bit of a pattern, as a number.\<close>

definition sign_bit :: "bool \<Rightarrow> nat" where
  "sign_bit s = (if s then 2 ^ 63 else 0)"

text \<open>
  \<open>float32(v)\<close>: the nearest binary32 value, ties to even; below the normal range the
  last place is fixed at \<open>2^-149\<close>, above the largest finite value the result is an
  infinity. A NaN stays a (quiet) NaN.
\<close>

definition f64_to_f32 :: "64 word \<Rightarrow> 32 word" where
  "f64_to_f32 w =
     (let s = (if f64_sign w then 2 ^ 31 else 0 :: nat); e = f64_ulp_exp w; m = f64_mant w in
      of_nat (s +
        (if f64_exp w = 2047
           then (if f64_frac w = 0 then 0x7F800000 else 0x7FC00000 + f64_frac w div 2 ^ 29 mod 2 ^ 22)
         else let b = (if e \<ge> 897 then (e - 897) * 2 ^ 23 + round_shift m 29
                       else round_shift m (926 - e))
              in if b \<ge> 0x7F800000 then 0x7F800000 else b)))"

text \<open>\<open>float64(f)\<close> for a \<open>float32\<close>: exact.\<close>

definition f32_to_f64 :: "32 word \<Rightarrow> 64 word" where
  "f32_to_f64 w =
     (let s = (if bit w 31 then 2 ^ 63 else 0 :: nat);
          e = unat (take_bit 8 (drop_bit 23 w));
          f = unat (take_bit 23 w) in
      of_nat (s +
        (if e = 255 then (if f = 0 then 2047 * 2 ^ 52 else 2047 * 2 ^ 52 + 2 ^ 51 + (f mod 2 ^ 22) * 2 ^ 29)
         else if e = 0
           then (if f = 0 then 0
                 else let k = bitlen f - 1 in (k + 874) * 2 ^ 52 + (f * 2 ^ (52 - k) - 2 ^ 52))
         else (e + 896) * 2 ^ 52 + f * 2 ^ 29)))"

section \<open>Strings\<close>

text \<open>\<open>utf8.ValidString\<close>: the well-formed UTF-8 byte sequences (no surrogates, no overlong forms).\<close>

definition utf8_cont :: "byte \<Rightarrow> bool" where
  "utf8_cont c = (0x80 \<le> c \<and> c \<le> 0xBF)"

fun ValidString :: "bytes \<Rightarrow> bool" where
  "ValidString [] = True"
| "ValidString (b # bs) =
     (if b < 0x80 then ValidString bs
      else if 0xC2 \<le> b \<and> b \<le> 0xDF then
        (case bs of c1 # r \<Rightarrow> utf8_cont c1 \<and> ValidString r | _ \<Rightarrow> False)
      else if 0xE0 \<le> b \<and> b \<le> 0xEF then
        (case bs of c1 # c2 # r \<Rightarrow>
           (if b = 0xE0 then 0xA0 \<le> c1 \<and> c1 \<le> 0xBF
            else if b = 0xED then 0x80 \<le> c1 \<and> c1 \<le> 0x9F
            else utf8_cont c1) \<and> utf8_cont c2 \<and> ValidString r
         | _ \<Rightarrow> False)
      else if 0xF0 \<le> b \<and> b \<le> 0xF4 then
        (case bs of c1 # c2 # c3 # r \<Rightarrow>
           (if b = 0xF0 then 0x90 \<le> c1 \<and> c1 \<le> 0xBF
            else if b = 0xF4 then 0x80 \<le> c1 \<and> c1 \<le> 0x8F
            else utf8_cont c1) \<and> utf8_cont c2 \<and> utf8_cont c3 \<and> ValidString r
         | _ \<Rightarrow> False)
      else False)"

section \<open>The Lua values the encoder reads\<close>

text \<open>
  The encoder works on gopher-lua values. Tables are reference values: an \<open>*lua.LTable\<close>
  is an address, and the tables themselves live in the heap of the Lua state, so that two
  slots can hold the same table and a table can hold itself. Lua functions are referred
  to by a number; the state says what calling one returns.
\<close>

type_synonym addr = nat
type_synonym fid = nat

datatype LValueType =
  LTNil | LTBool | LTNumber | LTString | LTFunction | LTUserData | LTThread | LTTable | LTChannel

text \<open>
  The Go values a userdata can carry, as the type switch of \<open>lmEncode\<close> tells them apart:
  the marker types of this package that have a \<open>PackMsg\<close> method, any other type with
  such a method (\<open>CustomPacker\<close>, given by the method itself), the two table wrappers
  \<open>Array\<close> and \<open>Map\<close> (a \<open>nil\<close> pointer is \<open>None\<close>), the five plain Go types with a
  fixed encoding, and everything else.
\<close>

datatype GoValue =
    Raw bytes | Str bytes | Bin bytes | Signed "64 word" | Unsigned "64 word"
  | F32 "32 word" | F64 "64 word"
  | Time32 GoTime | Time64 GoTime | Time96 GoTime | Time GoTime | ExtV Ext
  | CustomPacker "bytes \<Rightarrow> bytes"
  | Array "addr option" | Map "addr option"
  | GoString bytes | GoBytes bytes | GoUint64 "64 word" | GoInt64 "64 word" | GoTimeV GoTime
  | GoOther

text \<open>\<open>LUserData v mt\<close> is a userdata with \<open>Value\<close> \<open>v\<close> and \<open>Metatable\<close> \<open>mt\<close>.\<close>

datatype LValue =
    LNil | LBool bool | LNumber "64 word" | LString bytes | LFunction fid
  | LUserData GoValue LValue | LThread | LTable addr | LChannel

fun Type :: "LValue \<Rightarrow> LValueType" where
  "Type LNil = LTNil"
| "Type (LBool _) = LTBool"
| "Type (LNumber _) = LTNumber"
| "Type (LString _) = LTString"
| "Type (LFunction _) = LTFunction"
| "Type (LUserData _ _) = LTUserData"
| "Type LThread = LTThread"
| "Type (LTable _) = LTTable"
| "Type LChannel = LTChannel"

fun is_LNil :: "LValue \<Rightarrow> bool" where
  "is_LNil LNil = True"
| "is_LNil _ = False"

text \<open>
  A table: the array part (slots may hold \<open>LNil\<close>), the other entries in the order in
  which \<open>ForEach\<close> walks them, and the metatable (\<open>LNil\<close> when there is none).
\<close>

record LTableData =
  array :: "LValue list"
  dict :: "(LValue \<times> LValue) list"
  Metatable :: LValue

text \<open>
  The errors that unwind an encode call: the three that the encoder raises itself with
  \<open>ls.RaiseError\<close> ("object contained cycle", "UserData(...) cannot encode to msgpack",
  "Cannot encode " and the type), and \<open>CallError\<close> for an error raised inside a Lua
  function that the encoder called, with its message.
\<close>

datatype LError =
    ObjectContainedCycle
  | UserDataCannotEncode
  | CannotEncode LValueType
  | CallError string

datatype CallResult = Returns LValue | Raises string

record LState =
  heap :: "addr \<Rightarrow> LTableData"
  builtinMts :: "LValueType \<Rightarrow> LValue"
  funcs :: "fid \<Rightarrow> LValue list \<Rightarrow> CallResult"

text \<open>The bytes of a Go string literal.\<close>

definition str :: "string \<Rightarrow> bytes" where
  "str s = map (\<lambda>c. of_nat (of_char c)) s"

fun RawGetString_list :: "(LValue \<times> LValue) list \<Rightarrow> bytes \<Rightarrow> LValue" where
  "RawGetString_list [] key = LNil"
| "RawGetString_list ((k, v) # es) key =
     (case k of LString s \<Rightarrow> if s = key then v else RawGetString_list es key
      | _ \<Rightarrow> RawGetString_list es key)"

definition RawGetString :: "LTableData \<Rightarrow> bytes \<Rightarrow> LValue" where
  "RawGetString tb key = RawGetString_list (dict tb) key"

text \<open>\<open>RawGetInt\<close> reads the array part only; outside it the result is \<open>LNil\<close>.\<close>

definition RawGetInt :: "LTableData \<Rightarrow> int \<Rightarrow> LValue" where
  "RawGetInt tb key =
     (let index = key - 1 in
      if index \<ge> int (length (array tb)) \<or> index < 0 then LNil
      else array tb ! nat index)"

text \<open>\<open>Len\<close>: the position of the last slot of the array part that is not \<open>LNil\<close>.\<close>

definition Len :: "LTableData \<Rightarrow> int" where
  "Len tb = int (length (dropWhile is_LNil (rev (array tb))))"

text \<open>
  \<open>ForEach\<close> calls back on the slots of the array part that are not \<open>LNil\<close>, under the
  keys \<open>LNumber(i+1)\<close>, then on the other entries whose value is not \<open>LNil\<close>.
\<close>

definition ForEach :: "LTableData \<Rightarrow> (LValue \<times> LValue) list" where
  "ForEach tb =
     [(LNumber (int_to_f64 (int i + 1)), array tb ! i).
        i \<leftarrow> [0..<length (array tb)], \<not> is_LNil (array tb ! i)]
     @ [(k, v) \<leftarrow> dict tb. \<not> is_LNil v]"

text \<open>
  The metatable of a value: a table's or a userdata's own, for the other types the one
  registered for the type. A metafield is read from it when it is a table.
\<close>

definition metatable :: "LState \<Rightarrow> LValue \<Rightarrow> LValue" where
  "metatable ls v =
     (case v of
        LTable a \<Rightarrow> Metatable (heap ls a)
      | LUserData ud mt \<Rightarrow> mt
      | _ \<Rightarrow> builtinMts ls (Type v))"

definition GetMetaField :: "LState \<Rightarrow> LValue \<Rightarrow> string \<Rightarrow> LValue" where
  "GetMetaField ls v event =
     (case metatable ls v of
        LTable a \<Rightarrow> RawGetString (heap ls a) (str event)
      | _ \<Rightarrow> LNil)"

text \<open>\<open>ls.Push(fn); ls.Push(v); ls.Call(1, 1)\<close>: the function is called on the one argument.\<close>

definition Call :: "LState \<Rightarrow> fid \<Rightarrow> LValue list \<Rightarrow> CallResult" where
  "Call ls fn args = funcs ls fn args"

text \<open>
  \<open>ObjLen\<close>: the byte length of a string; else the result of the \<open>__len\<close> metamethod when
  there is one (0 unless it returns a number); else \<open>Len\<close> for a table; else 0.
\<close>

definition ObjLen :: "LState \<Rightarrow> LValue \<Rightarrow> LError + int" where
  "ObjLen ls v1 =
     (case v1 of
        LString s \<Rightarrow> Inr (int (length s))
      | _ \<Rightarrow>
        (case GetMetaField ls v1 ''__len'' of
           LFunction op \<Rightarrow>
             (case Call ls op [v1] of
                Raises e \<Rightarrow> Inl (CallError e)
              | Returns ret \<Rightarrow>
                  (case ret of LNumber n \<Rightarrow> Inr (sint (f64_to_int64 n)) | _ \<Rightarrow> Inr 0))
         | _ \<Rightarrow> (case v1 of LTable a \<Rightarrow> Inr (Len (heap ls a)) | _ \<Rightarrow> Inr 0)))"

text \<open>
  \<open>marker\<close> wraps the value a constructor built into a userdata without a metatable.
  \<open>newArray\<close> and \<open>newMap\<close> take an optional table (\<open>ls.OptTable(1, nil)\<close>).
\<close>

definition marker :: "GoValue \<Rightarrow> LValue" where
  "marker v = LUserData v LNil"

definition OptTable :: "LValue \<Rightarrow> LError + addr option" where
  "OptTable v =
     (case v of LNil \<Rightarrow> Inr None | LTable a \<Rightarrow> Inr (Some a)
      | _ \<Rightarrow> Inl (CallError ''table expected''))"

definition newArray :: "LValue \<Rightarrow> LError + GoValue" where
  "newArray arg = (case OptTable arg of Inl e \<Rightarrow> Inl e | Inr t \<Rightarrow> Inr (Array t))"

definition newMap :: "LValue \<Rightarrow> LError + GoValue" where
  "newMap arg = (case OptTable arg of Inl e \<Rightarrow> Inl e | Inr t \<Rightarrow> Inr (Map t))"

section \<open>The encoder\<close>

text \<open>
  \<open>markDupe\<close>: the set \<open>dupe\<close> holds the tables met so far in this encode call. A table
  that is already in it raises "object contained cycle"; otherwise it is added.
\<close>

definition markDupe :: "addr set \<Rightarrow> addr \<Rightarrow> LError + addr set" where
  "markDupe dupe v = (if v \<in> dupe then Inl ObjectContainedCycle else Inr (insert v dupe))"

text \<open>
  \<open>PackMsg\<close> of a value that implements \<open>Packer\<close>; \<open>None\<close> for the values that do not.
\<close>

fun PackMsg :: "GoValue \<Rightarrow> (bytes \<Rightarrow> bytes) option" where
  "PackMsg (Raw s) = Some (Raw_PackMsg s)"
| "PackMsg (Str s) = Some (Str_PackMsg s)"
| "PackMsg (Bin s) = Some (Bin_PackMsg s)"
| "PackMsg (Signed i) = Some (Signed_PackMsg i)"
| "PackMsg (Unsigned u) = Some (Unsigned_PackMsg u)"
| "PackMsg (F32 f) = Some (F32_PackMsg f)"
| "PackMsg (F64 f) = Some (F64_PackMsg f)"
| "PackMsg (Time32 t) = Some (Time32_PackMsg t)"
| "PackMsg (Time64 t) = Some (Time64_PackMsg t)"
| "PackMsg (Time96 t) = Some (Time96_PackMsg t)"
| "PackMsg (Time t) = Some (Time_PackMsg t)"
| "PackMsg (ExtV e) = Some (Ext_PackMsg e)"
| "PackMsg (CustomPacker f) = Some f"
| "PackMsg _ = None"

text \<open>The length-class header of an array (\<open>vlen\<close> is a Go \<open>int\<close>) and of a map.\<close>

definition array_header :: "int \<Rightarrow> bytes \<Rightarrow> bytes" where
  "array_header vlen buf =
     (if vlen < 16 then buf @ [0x90 OR of_int vlen]
      else if vlen < 0x10000 then AppendUint16 (buf @ [0xdc]) (of_int vlen)
      else AppendUint32 (buf @ [0xdd]) (of_int vlen))"

definition map_header :: "nat \<Rightarrow> bytes \<Rightarrow> bytes" where
  "map_header vlen buf =
     (if vlen < 16 then buf @ [0x80 OR of_nat vlen]
      else if vlen < 0x10000 then AppendUint16 (buf @ [0xde]) (of_nat vlen)
      else AppendUint32 (buf @ [0xdf]) (of_nat vlen))"

text \<open>The values \<open>v.RawGetInt(i+1)\<close> for \<open>i\<close> in \<open>range vlen\<close>, in the order of the loop.\<close>

definition array_items :: "LTableData \<Rightarrow> int \<Rightarrow> LValue list" where
  "array_items tb vlen = map (\<lambda>i. RawGetInt tb (int i + 1)) [0..<nat vlen]"

text \<open>
  The head of \<open>lmEncode\<close>, up to the point where it returns, raises or calls on: one
  turn of the override loop, or the type switch on a value without an override.
  \<open>Substitute\<close> is the next turn of the loop on the value the override returned;
  \<open>AsArray\<close> and \<open>AsMap\<close> are the calls of \<open>lmEncodeArray\<close> and \<open>lmEncodeMap\<close>.
\<close>

datatype Step =
    Emit bytes
  | Fail LError
  | Substitute LValue
  | AsArray addr int
  | AsMap addr

definition userdata_step :: "LState \<Rightarrow> LValue \<Rightarrow> GoValue \<Rightarrow> bytes \<Rightarrow> Step" where
  "userdata_step ls value ud buf =
     (case PackMsg ud of
        Some pack \<Rightarrow> Emit (pack buf)
      | None \<Rightarrow>
        (case ud of
           Array t \<Rightarrow>
             (case t of
                None \<Rightarrow> Emit (buf @ [0xc0])
              | Some a \<Rightarrow>
                  (case ObjLen ls value of Inl e \<Rightarrow> Fail e | Inr vlen \<Rightarrow> AsArray a vlen))
         | Map t \<Rightarrow> (case t of None \<Rightarrow> Emit (buf @ [0xc0]) | Some a \<Rightarrow> AsMap a)
         | GoString s \<Rightarrow> Emit (Str_PackMsg s buf)
         | GoBytes s \<Rightarrow> Emit (Bin_PackMsg s buf)
         | GoUint64 u \<Rightarrow> Emit (Unsigned_PackMsg u buf)
         | GoInt64 i \<Rightarrow> Emit (Signed_PackMsg i buf)
         | GoTimeV t \<Rightarrow> Emit (Time_PackMsg t buf)
         | _ \<Rightarrow> Fail UserDataCannotEncode))"

definition number_step :: "64 word \<Rightarrow> bytes \<Rightarrow> Step" where
  "number_step v buf =
     (if f64_eq v (int_to_f64 (sint (f64_to_int64 v))) then Emit (Signed_PackMsg (f64_to_int64 v) buf)
      else if f64_eq v (f32_to_f64 (f64_to_f32 v)) then Emit (F32_PackMsg (f64_to_f32 v) buf)
      else Emit (F64_PackMsg v buf))"

definition value_step :: "LState \<Rightarrow> LValue \<Rightarrow> bytes \<Rightarrow> Step" where
  "value_step ls value buf =
     (case value of
        LNil \<Rightarrow> Emit (buf @ [0xc0])
      | LBool v \<Rightarrow> (if v then Emit (buf @ [0xc2]) else Emit (buf @ [0xc3]))
      | LNumber v \<Rightarrow> number_step v buf
      | LString v \<Rightarrow> (if ValidString v then Emit (Str_PackMsg v buf) else Emit (Bin_PackMsg v buf))
      | LTable v \<Rightarrow>
          (case ObjLen ls value of
             Inl e \<Rightarrow> Fail e
           | Inr vlen \<Rightarrow> if vlen = 0 then AsMap v else AsArray v vlen)
      | LUserData ud mt \<Rightarrow> userdata_step ls value ud buf
      | _ \<Rightarrow> Fail (CannotEncode (Type value)))"

definition lmEncode_step :: "LState \<Rightarrow> LValue \<Rightarrow> bytes \<Rightarrow> Step" where
  "lmEncode_step ls value buf =
     (case GetMetaField ls value ''__msgpack'' of
        LFunction fn \<Rightarrow>
          (case Call ls fn [value] of
             Raises e \<Rightarrow> Fail (CallError e)
           | Returns value' \<Rightarrow> Substitute value')
      | _ \<Rightarrow> value_step ls value buf)"

text \<open>
  \<open>lmEncode\<close>, \<open>lmEncodeArray\<close> and \<open>lmEncodeMap\<close>. The result is \<open>Inr\<close> of the extended
  buffer and the updated set \<open>dupe\<close>, or \<open>Inl\<close> of the error raised. The override loop at
  the head of \<open>lmEncode\<close> need not end, so the functions take fuel: every entry to
  \<open>lmEncode\<close> (a call or a turn of its loop) uses one unit, and \<open>None\<close> says that the
  fuel ran out. \<open>lmEncodeElems\<close> is the loop of \<open>lmEncodeArray\<close> over the elements,
  \<open>lmEncodeEntries\<close> the callback of \<open>ForEach\<close> in \<open>lmEncodeMap\<close>, which counts the
  entries and fills the scratch buffer.
\<close>

function (sequential) lmEncode :: "nat \<Rightarrow> LState \<Rightarrow> LValue \<Rightarrow> bytes \<Rightarrow> addr set \<Rightarrow> (LError + bytes \<times> addr set) option"
and lmEncodeArray :: "nat \<Rightarrow> LState \<Rightarrow> addr \<Rightarrow> int \<Rightarrow> bytes \<Rightarrow> addr set \<Rightarrow> (LError + bytes \<times> addr set) option"
and lmEncodeElems :: "nat \<Rightarrow> LState \<Rightarrow> LValue list \<Rightarrow> bytes \<Rightarrow> addr set \<Rightarrow> (LError + bytes \<times> addr set) option"
and lmEncodeMap :: "nat \<Rightarrow> LState \<Rightarrow> addr \<Rightarrow> bytes \<Rightarrow> addr set \<Rightarrow> (LError + bytes \<times> addr set) option"
and lmEncodeEntries :: "nat \<Rightarrow> LState \<Rightarrow> (LValue \<times> LValue) list \<Rightarrow> nat \<Rightarrow> bytes \<Rightarrow> addr set
      \<Rightarrow> (LError + nat \<times> bytes \<times> addr set) option"
where
  "lmEncode 0 ls value buf dupe = None"
| "lmEncode (Suc n) ls value buf dupe =
     (case lmEncode_step ls value buf of
        Emit buf' \<Rightarrow> Some (Inr (buf', dupe))
      | Fail e \<Rightarrow> Some (Inl e)
      | Substitute value' \<Rightarrow> lmEncode n ls value' buf dupe
      | AsArray v vlen \<Rightarrow> lmEncodeArray n ls v vlen buf dupe
      | AsMap v \<Rightarrow> lmEncodeMap n ls v buf dupe)"
| "lmEncodeArray n ls v vlen buf dupe =
     (case markDupe dupe v of
        Inl e \<Rightarrow> Some (Inl e)
      | Inr dupe' \<Rightarrow>
          lmEncodeElems n ls (array_items (heap ls v) vlen) (array_header vlen buf) dupe')"
| "lmEncodeElems n ls [] buf dupe = Some (Inr (buf, dupe))"
| "lmEncodeElems n ls (e # es) buf dupe =
     (case lmEncode n ls e buf dupe of
        None \<Rightarrow> None
      | Some (Inl err) \<Rightarrow> Some (Inl err)
      | Some (Inr (buf', dupe')) \<Rightarrow> lmEncodeElems n ls es buf' dupe')"
| "lmEncodeMap n ls v buf dupe =
     (case markDupe dupe v of
        Inl e \<Rightarrow> Some (Inl e)
      | Inr dupe' \<Rightarrow>
          (case lmEncodeEntries n ls (ForEach (heap ls v)) 0 [] dupe' of
             None \<Rightarrow> None
           | Some (Inl err) \<Rightarrow> Some (Inl err)
           | Some (Inr (vlen, mapbuf, dupe'')) \<Rightarrow> Some (Inr (map_header vlen buf @ mapbuf, dupe''))))"
| "lmEncodeEntries n ls [] vlen mapbuf dupe = Some (Inr (vlen, mapbuf, dupe))"
| "lmEncodeEntries n ls ((k, v) # es) vlen mapbuf dupe =
     (case lmEncode n ls k mapbuf dupe of
        None \<Rightarrow> None
      | Some (Inl err) \<Rightarrow> Some (Inl err)
      | Some (Inr (mapbuf', dupe')) \<Rightarrow>
          (case lmEncode n ls v mapbuf' dupe' of
             None \<Rightarrow> None
           | Some (Inl err) \<Rightarrow> Some (Inl err)
           | Some (Inr (mapbuf'', dupe'')) \<Rightarrow>
               lmEncodeEntries n ls es (vlen + 1) mapbuf'' dupe''))"
  by pat_completeness auto

termination
  by (relation "measures
        [\<lambda>x. case x of
            Inl (Inl (n, _)) \<Rightarrow> 3 * n
          | Inl (Inr (n, _)) \<Rightarrow> 3 * n + 2
          | Inr (Inl (n, _)) \<Rightarrow> 3 * n + 1
          | Inr (Inr (Inl (n, _))) \<Rightarrow> 3 * n + 2
          | Inr (Inr (Inr (n, _))) \<Rightarrow> 3 * n + 1,
         \<lambda>x. case x of
            Inr (Inl (_, _, es, _)) \<Rightarrow> length es
          | Inr (Inr (Inr (_, _, es, _))) \<Rightarrow> length es
          | _ \<Rightarrow> 0]") auto

declare lmEncode.simps [simp del]

text \<open>
  \<open>MsgEncode\<close>: a new, empty set \<open>dupe\<close> and an empty buffer for every call; the result
  is the buffer as a Lua string.
\<close>

definition MsgEncode :: "nat \<Rightarrow> LState \<Rightarrow> LValue \<Rightarrow> (LError + bytes) option" where
  "MsgEncode fuel ls arg =
     (case lmEncode fuel ls arg [] {} of
        None \<Rightarrow> None
      | Some (Inl e) \<Rightarrow> Some (Inl e)
      | Some (Inr (buf, dupe)) \<Rightarrow> Some (Inr buf))"

section \<open>Overrides\<close>

text \<open>
  A value has a representation override when its \<open>__msgpack\<close> metafield is a function.
  \<open>overrides_to ls v w\<close>: the chain of overrides that starts at \<open>v\<close> ends at \<open>w\<close>, a
  value without an override; each override is called on the value it belongs to.
\<close>

definition has_override :: "LState \<Rightarrow> LValue \<Rightarrow> bool" where
  "has_override ls v =
     (case GetMetaField ls v ''__msgpack'' of LFunction _ \<Rightarrow> True | _ \<Rightarrow> False)"


section \<open>The values the encoder walks\<close>

text \<open>
  What \<open>lmEncode\<close> does with a value, apart from the bytes: it returns or raises at once
  (\<open>Leaf\<close>), it goes on with the value an override returned (\<open>Subst\<close>), or it enters
  \<open>lmEncodeArray\<close> or \<open>lmEncodeMap\<close> on a table \<open>a\<close> and from there calls itself on
  the listed values, in this order (\<open>Container\<close>): the elements of the array loop, or
  the keys and values of the entries of the map.
\<close>

datatype Visit = Leaf | Subst LValue | Container addr "LValue list"

definition entry_items :: "(LValue \<times> LValue) list \<Rightarrow> LValue list" where
  "entry_items es = concat (map (\<lambda>(k, v). [k, v]) es)"

definition visit :: "LState \<Rightarrow> LValue \<Rightarrow> Visit" where
  "visit ls v =
     (case lmEncode_step ls v [] of
        Emit _ \<Rightarrow> Leaf
      | Fail _ \<Rightarrow> Leaf
      | Substitute v' \<Rightarrow> Subst v'
      | AsArray a vlen \<Rightarrow> Container a (array_items (heap ls a) vlen)
      | AsMap a \<Rightarrow> Container a (entry_items (ForEach (heap ls a))))"

text \<open>
  \<open>tree ls v A\<close>: what the encoder walks from \<open>v\<close> is a finite tree, \<open>A\<close> is the set of
  the tables it enters as containers, and no table is entered twice: a container is not
  among the tables below it, and the tables below two values of one container are
  disjoint. \<open>forest\<close> is the same for the values of one container.
\<close>

inductive tree :: "LState \<Rightarrow> LValue \<Rightarrow> addr set \<Rightarrow> bool"
  and forest :: "LState \<Rightarrow> LValue list \<Rightarrow> addr set \<Rightarrow> bool"
  for ls where
  tree_leaf: "visit ls v = Leaf \<Longrightarrow> tree ls v {}"
| tree_subst: "visit ls v = Subst v' \<Longrightarrow> tree ls v' A \<Longrightarrow> tree ls v A"
| tree_node: "visit ls v = Container a vs \<Longrightarrow> forest ls vs A \<Longrightarrow> a \<notin> A
              \<Longrightarrow> tree ls v (insert a A)"
| forest_nil: "forest ls [] {}"
| forest_cons: "tree ls v A \<Longrightarrow> forest ls vs B \<Longrightarrow> A \<inter> B = {}
              \<Longrightarrow> forest ls (v # vs) (A \<union> B)"

text \<open>
  \<open>revisits ls pending seen\<close>: the walk meets a container a second time. The values
  still to be encoded are \<open>pending\<close>, in the order in which the encoder reaches them, and
  \<open>seen\<close> is the set of the tables entered as containers so far in this call. The first
  pending value is a container that is in \<open>seen\<close> already; or it is entered and its
  values are walked before the rest; or it has an override, and the value the override
  returns is walked in its place; or it is encoded at once and the walk goes on. A
  value that raises another error ends the walk: no container is met after it.
\<close>

inductive revisits :: "LState \<Rightarrow> LValue list \<Rightarrow> addr set \<Rightarrow> bool" for ls where
  revisits_again: "visit ls v = Container a vs \<Longrightarrow> a \<in> seen \<Longrightarrow> revisits ls (v # rest) seen"
| revisits_enter: "visit ls v = Container a vs \<Longrightarrow> a \<notin> seen
     \<Longrightarrow> revisits ls (vs @ rest) (insert a seen) \<Longrightarrow> revisits ls (v # rest) seen"
| revisits_follow: "visit ls v = Subst v' \<Longrightarrow> revisits ls (v' # rest) seen
     \<Longrightarrow> revisits ls (v # rest) seen"
| revisits_pass: "lmEncode_step ls v [] = Emit b \<Longrightarrow> revisits ls rest seen
     \<Longrightarrow> revisits ls (v # rest) seen"

text \<open>
  A result of the encoder without its bytes: the error, or the set left; and the
  encoder run on the empty buffer for this part of the result only.
\<close>

definition outcome :: "(LError + bytes \<times> addr set) option \<Rightarrow> (LError + addr set) option" where
  "outcome r = map_option (map_sum id snd) r"

definition walk :: "nat \<Rightarrow> LState \<Rightarrow> LValue \<Rightarrow> addr set \<Rightarrow> (LError + addr set) option" where
  "walk n ls v D = outcome (lmEncode n ls v [] D)"

definition walk_list :: "nat \<Rightarrow> LState \<Rightarrow> LValue list \<Rightarrow> addr set \<Rightarrow> (LError + addr set) option" where
  "walk_list n ls vs D = outcome (lmEncodeElems n ls vs [] D)"

text \<open>A result that is not the cycle error and, when it is a success, leaves the set \<open>D\<close>.\<close>

definition guard_ok :: "(LError + bytes \<times> addr set) option \<Rightarrow> addr set \<Rightarrow> bool" where
  "guard_ok r D =
     (case r of
        None \<Rightarrow> True
      | Some (Inl e) \<Rightarrow> e \<noteq> ObjectContainedCycle
      | Some (Inr (b, d)) \<Rightarrow> d = D)"

text \<open>A step without the bytes it emits.\<close>

fun step_shape :: "Step \<Rightarrow> Step" where
  "step_shape (Emit b) = Emit []"
| "step_shape s = s"

section \<open>States and values used as examples\<close>

definition empty_table :: LTableData where
  "empty_table = \<lparr>array = [], dict = [], Metatable = LNil\<rparr>"

text \<open>A state in which every table is empty and no type has a metatable.\<close>

definition plain_state :: LState where
  "plain_state =
     \<lparr>heap = (\<lambda>_. empty_table), builtinMts = (\<lambda>_. LNil), funcs = (\<lambda>_ _. Returns LNil)\<rparr>"

text \<open>The table \<open>{1, 2, 3}\<close>; the numbers are the doubles 1.0, 2.0 and 3.0.\<close>

definition three_table :: LTableData where
  "three_table =
     \<lparr>array = [LNumber 0x3FF0000000000000, LNumber 0x4000000000000000,
              LNumber 0x4008000000000000],
      dict = [], Metatable = LNil\<rparr>"

definition three_state :: LState where
  "three_state =
     \<lparr>heap = (\<lambda>_. three_table), builtinMts = (\<lambda>_. LNil), funcs = (\<lambda>_ _. Returns LNil)\<rparr>"


text \<open>
  Three states for the cycle guard: one where every table holds itself; one where the
  table at 5 holds the empty table at 6 in both of its slots; one where it holds the two
  empty tables at 6 and at 7.
\<close>

definition cycle_state :: LState where
  "cycle_state =
     \<lparr>heap = (\<lambda>a. \<lparr>array = [LTable a], dict = [], Metatable = LNil\<rparr>),
      builtinMts = (\<lambda>_. LNil), funcs = (\<lambda>_ _. Returns LNil)\<rparr>"

definition shared_state :: LState where
  "shared_state =
     \<lparr>heap = (\<lambda>a. if a = 5 then \<lparr>array = [LTable 6, LTable 6], dict = [], Metatable = LNil\<rparr>
                  else empty_table),
      builtinMts = (\<lambda>_. LNil), funcs = (\<lambda>_ _. Returns LNil)\<rparr>"

definition distinct_state :: LState where
  "distinct_state =
     \<lparr>heap = (\<lambda>a. if a = 5 then \<lparr>array = [LTable 6, LTable 7], dict = [], Metatable = LNil\<rparr>
                  else empty_table),
      builtinMts = (\<lambda>_. LNil), funcs = (\<lambda>_ _. Returns LNil)\<rparr>"

text \<open>
  Tables with entries in the dictionary part only: the table at 5 holds itself, the one
  at 8 holds the empty table at 6 under two keys, the one at 9 holds the two empty tables
  at 6 and at 7.
\<close>

definition map_state :: LState where
  "map_state =
     \<lparr>heap = (\<lambda>a.
         if a = 5 then \<lparr>array = [], dict = [(LString (str ''a''), LTable 5)], Metatable = LNil\<rparr>
         else if a = 8 then \<lparr>array = [],
                 dict = [(LString (str ''a''), LTable 6), (LString (str ''b''), LTable 6)],
                 Metatable = LNil\<rparr>
         else if a = 9 then \<lparr>array = [],
                 dict = [(LString (str ''a''), LTable 6), (LString (str ''b''), LTable 7)],
                 Metatable = LNil\<rparr>
         else empty_table),
      builtinMts = (\<lambda>_. LNil), funcs = (\<lambda>_ _. Returns LNil)\<rparr>"

text \<open>The time of the package's test: 1996-02-29 10:20:30 UTC and 40 nanoseconds.\<close>

definition test_time :: GoTime where
  "test_time = \<lparr>Unix = 825589230, Nanosecond = 40\<rparr>"

text \<open>
  The same second without nanoseconds, and a time whose seconds need 35 bits (in the
  year 2514).
\<close>

definition time32_example :: GoTime where
  "time32_example = \<lparr>Unix = 825589230, Nanosecond = 0\<rparr>"

definition time96_example :: GoTime where
  "time96_example = \<lparr>Unix = 0x400000000, Nanosecond = 40\<rparr>"

section \<open>Basic facts about the encoder\<close>

lemmas f64_defs = f64_to_int64_def f64_trunc_def f64_trunc_mag_def f64_ulp_exp_def f64_exp_def f64_mant_def
  f64_frac_def f64_sign_def int_to_f64_def mag_to_f64_def bitlen.simps f64_to_f32_def
  f32_to_f64_def round_shift_def f64_eq_def f64_isNaN_def Let_def

lemma step_plain: "\<not> has_override ls v \<Longrightarrow> lmEncode_step ls v buf = value_step ls v buf"
  by (auto simp: has_override_def lmEncode_step_def split: LValue.splits)

lemma marker_no_override: "\<not> has_override ls (marker ud)"
  by (simp add: has_override_def GetMetaField_def metatable_def marker_def)

lemma ObjLen_marker: "ObjLen ls (marker ud) = Inr 0"
  by (simp add: ObjLen_def GetMetaField_def metatable_def marker_def)

lemma marker_array_step: "lmEncode_step ls (marker (Array (Some a))) buf = AsArray a 0"
  by (simp add: step_plain marker_no_override value_step_def)
     (simp add: marker_def userdata_step_def ObjLen_marker [unfolded marker_def])

lemma marker_map_step: "lmEncode_step ls (marker (Map (Some a))) buf = AsMap a"
  by (simp add: step_plain marker_no_override value_step_def)
     (simp add: marker_def userdata_step_def)

lemma marker_absent_step:
  "lmEncode_step ls (marker (Array None)) buf = Emit (buf @ [0xc0])"
  "lmEncode_step ls (marker (Map None)) buf = Emit (buf @ [0xc0])"
  by (simp_all add: step_plain marker_no_override value_step_def)
     (simp_all add: marker_def userdata_step_def)

lemma plain_table_step:
  assumes "Metatable (heap ls a) = LNil"
  shows "lmEncode_step ls (LTable a) buf =
           (if Len (heap ls a) = 0 then AsMap a else AsArray a (Len (heap ls a)))"
  using assms
  by (simp add: lmEncode_step_def value_step_def ObjLen_def GetMetaField_def metatable_def)

lemma lmEncode_0: "lmEncode 0 ls v buf dupe = None"
  by (simp add: lmEncode.simps)

lemma plain_number_step:
  "builtinMts ls LTNumber = LNil \<Longrightarrow> lmEncode_step ls (LNumber v) buf = number_step v buf"
  by (simp add: lmEncode_step_def value_step_def GetMetaField_def metatable_def)

lemma number_step_small:
  "number_step 0x3FF0000000000000 buf = Emit (buf @ [1])"
  "number_step 0x4000000000000000 buf = Emit (buf @ [2])"
  "number_step 0x4008000000000000 buf = Emit (buf @ [3])"
  by (simp_all add: number_step_def f64_defs Signed_PackMsg_def)

lemma array_items_0: "array_items tb 0 = []"
  by (simp add: array_items_def)

lemma array_header_0: "array_header 0 buf = buf @ [0x90]"
  by (simp add: array_header_def)

lemma map_header_0: "map_header 0 buf = buf @ [0x80]"
  by (simp add: map_header_def)

text \<open>
  An \<open>Array\<close> marker built by \<open>marker\<close> has no metatable, and its length is taken with
  \<open>ls.ObjLen(v)\<close> of the userdata \<open>v\<close>, which is 0. So whatever the wrapped table holds,
  the encoder registers the table and writes the header of the empty array.
\<close>

lemma lmEncode_marker_array:
  "lmEncode (Suc n) ls (marker (Array (Some a))) buf dupe =
     (if a \<in> dupe then Some (Inl ObjectContainedCycle)
      else Some (Inr (buf @ [0x90], insert a dupe)))"
  by (simp add: lmEncode.simps marker_array_step markDupe_def array_items_0 array_header_0)

lemma MsgEncode_marker_array:
  "MsgEncode (Suc n) ls (marker (Array (Some a))) = Some (Inr [0x90])"
  by (simp add: MsgEncode_def lmEncode_marker_array)


section \<open>The signed-integer packer at the edge of the one-byte range\<close>

lemma Signed_PackMsg_fix:
  "-32 < sint i \<Longrightarrow> sint i < 128 \<Longrightarrow> Signed_PackMsg i buf = buf @ [ucast i]"
  by (simp add: Signed_PackMsg_def)

text \<open>The wider forms: the narrowest of 8, 16, 32 and 64 bits that holds the value.\<close>

lemma Signed_PackMsg_forms:
  "- 128 \<le> sint i \<and> sint i \<le> - 32 \<Longrightarrow> Signed_PackMsg i buf = buf @ [0xd0, ucast i]"
  "(- 32768 \<le> sint i \<and> sint i < - 128) \<or> (128 \<le> sint i \<and> sint i \<le> 32767) \<Longrightarrow>
     Signed_PackMsg i buf = AppendUint16 (buf @ [0xd1]) (ucast i)"
  "(- 2147483648 \<le> sint i \<and> sint i < - 32768) \<or> (32767 < sint i \<and> sint i \<le> 2147483647) \<Longrightarrow>
     Signed_PackMsg i buf = AppendUint32 (buf @ [0xd2]) (ucast i)"
  "sint i < - 2147483648 \<or> 2147483647 < sint i \<Longrightarrow>
     Signed_PackMsg i buf = AppendUint64 (buf @ [0xd3]) i"
  by (auto simp add: Signed_PackMsg_def)

text \<open>
  C1. The claim gives the closed interval \<open>[-32, 127]\<close> for the one-byte form. The
  source tests \<open>i > -32\<close>, so at \<open>i = -32\<close> it falls to the next case and writes the
  two bytes \<open>0xd0 0xe0\<close> (marker and 8-bit payload), not the single byte \<open>0xe0\<close>.
\<close>

theorem Signed_PackMsg_minus32:
  "Signed_PackMsg (-32) buf = buf @ [0xd0, 0xe0]"
  by (simp add: Signed_PackMsg_def)

section \<open>Booleans\<close>

text \<open>
  C2. A boolean without a representation override is encoded as one byte: \<open>true\<close> as
  \<open>0xc2\<close> and \<open>false\<close> as \<open>0xc3\<close>, both by \<open>lmEncode\<close> on any buffer and by the
  top-level \<open>MsgEncode\<close>, as soon as there is fuel for one step.
\<close>

theorem encode_bool:
  assumes "\<not> has_override ls (LBool b)"
  shows "lmEncode (Suc n) ls (LBool b) buf dupe
           = Some (Inr (buf @ [if b then 0xc2 else 0xc3], dupe))
       \<and> MsgEncode (Suc n) ls (LBool b) = Some (Inr [if b then 0xc2 else 0xc3])"
  using assms by (simp add: MsgEncode_def lmEncode.simps step_plain value_step_def)

theorem encode_bool_witness:
  "\<not> has_override plain_state (LBool True) \<and> \<not> has_override plain_state (LBool False)
   \<and> MsgEncode (Suc 0) plain_state (LBool True) = Some (Inr [0xc2])
   \<and> MsgEncode (Suc 0) plain_state (LBool False) = Some (Inr [0xc3])"
proof -
  have t: "\<not> has_override plain_state (LBool True)"
    and f: "\<not> has_override plain_state (LBool False)"
    by (simp_all add: has_override_def GetMetaField_def metatable_def plain_state_def)
  show ?thesis using t f encode_bool [OF t, of 0] encode_bool [OF f, of 0] by simp
qed

section \<open>Extension values\<close>

lemma Ext_PackMsg_fixed:
  "length (data e) \<in> {1, 2, 4, 8, 16} \<Longrightarrow> \<exists>m. Ext_PackMsg e buf = buf @ [m, x e] @ data e"
  by (auto simp add: Ext_PackMsg_def)

lemma Ext_PackMsg_short:
  "length (data e) \<notin> {1, 2, 4, 8, 16} \<Longrightarrow> length (data e) < 128 \<Longrightarrow>
   Ext_PackMsg e buf
     = buf @ [0xc7, ucast (of_nat (length (data e)) :: 64 word), x e] @ data e"
  by (auto simp add: Ext_PackMsg_def Unsigned_PackMsg_def unat_of_nat)

text \<open>
  C3. The claim says that after the marker of the 8/16/32-bit form the length is written
  raw, with no further marker byte. The source writes it with \<open>Unsigned(l).PackMsg\<close>,
  which from 128 on puts a marker of its own in front: a payload of 128 bytes with the type
  code 1 comes out as \<open>0xc7 0xcc 0x80 0x01\<close> and the payload, where the claim has
  \<open>0xc7 0x80 0x01\<close> and the payload.
\<close>

theorem Ext_PackMsg_len128:
  "Ext_PackMsg \<lparr>x = 1, data = replicate 128 0\<rparr> buf
     = buf @ [0xc7, 0xcc, 0x80, 0x01] @ replicate 128 0"
  by (simp add: Ext_PackMsg_def Unsigned_PackMsg_def)

section \<open>Array and Map markers\<close>

text \<open>
  C4. The claim says that an \<open>Array\<close> marker around a table of \<open>n\<close> elements is encoded
  with a header of length \<open>n\<close> followed by the elements. On the table \<open>{1, 2, 3}\<close> the
  encoder returns the single byte \<open>0x90\<close>, the header of the empty array, and no element;
  the same table without the marker is encoded as \<open>0x93 0x01 0x02 0x03\<close>.
\<close>

theorem array_marker_drops_elements:
  "array (heap three_state 0) = [LNumber 0x3FF0000000000000, LNumber 0x4000000000000000,
                               LNumber 0x4008000000000000]
   \<and> MsgEncode (Suc 0) three_state (marker (Array (Some 0))) = Some (Inr [0x90])
   \<and> MsgEncode (Suc (Suc 0)) three_state (LTable 0) = Some (Inr [0x93, 1, 2, 3])"
proof -
  have h: "heap three_state a = three_table" for a by (simp add: three_state_def)
  have m: "Metatable (heap three_state 0) = LNil" by (simp add: h three_table_def)
  have l: "Len three_table = 3" by (simp add: Len_def three_table_def)
  have b: "builtinMts three_state LTNumber = LNil" by (simp add: three_state_def)
  have i: "array_items three_table 3 = array three_table"
    by (simp add: array_items_def RawGetInt_def three_table_def upt_rec numeral_eq_Suc)
  have "MsgEncode (Suc (Suc 0)) three_state (LTable 0) = Some (Inr [0x93, 1, 2, 3])"
    by (simp add: MsgEncode_def lmEncode.simps plain_table_step [OF m] h l i markDupe_def
          plain_number_step [OF b] number_step_small array_header_def)
       (simp add: three_table_def lmEncode.simps plain_number_step [OF b] number_step_small)
  then show ?thesis
    by (simp add: MsgEncode_marker_array h three_table_def)
qed

text \<open>
  C5, as the claim states it, fails: a marker around a present but empty table is not
  encoded as Nil. In the state where every table is empty, the \<open>Array\<close> marker gives
  \<open>0x90\<close> and the \<open>Map\<close> marker \<open>0x80\<close>.
\<close>

theorem empty_marker_not_nil:
  "heap plain_state 0 = \<lparr>array = [], dict = [], Metatable = LNil\<rparr>
   \<and> MsgEncode (Suc 0) plain_state (marker (Array (Some 0))) = Some (Inr [0x90])
   \<and> MsgEncode (Suc 0) plain_state (marker (Map (Some 0))) = Some (Inr [0x80])
   \<and> MsgEncode (Suc 0) plain_state (marker (Array (Some 0))) \<noteq> Some (Inr [0xc0])
   \<and> MsgEncode (Suc 0) plain_state (marker (Map (Some 0))) \<noteq> Some (Inr [0xc0])"
  by (simp add: MsgEncode_def lmEncode.simps marker_array_step marker_map_step markDupe_def
        array_items_0 array_header_0 map_header_0 ForEach_def plain_state_def empty_table_def)

text \<open>
  C5, amended: every \<open>Array\<close> or \<open>Map\<close> marker that wraps an absent container (the
  constructor was given no table, or \<open>nil\<close>) is encoded as Nil, the single byte \<open>0xc0\<close>.
\<close>

theorem absent_marker_nil:
  "lmEncode (Suc n) ls (marker (Array None)) buf dupe = Some (Inr (buf @ [0xc0], dupe))
   \<and> lmEncode (Suc n) ls (marker (Map None)) buf dupe = Some (Inr (buf @ [0xc0], dupe))
   \<and> MsgEncode (Suc n) ls (marker (Array None)) = Some (Inr [0xc0])
   \<and> MsgEncode (Suc n) ls (marker (Map None)) = Some (Inr [0xc0])
   \<and> newArray LNil = Inr (Array None) \<and> newMap LNil = Inr (Map None)"
  by (simp add: MsgEncode_def lmEncode.simps marker_absent_step newArray_def newMap_def
        OptTable_def)

text \<open>
  C6. For an empty table without a metatable: the \<open>Array\<close> marker around it is encoded
  as \<open>0x90\<close>, the compact header of the empty array; the \<open>Map\<close> marker around it and the
  table itself, unmarked, are encoded as \<open>0x80\<close>, the compact header of the empty map;
  and the two encodings differ.
\<close>

theorem empty_containers:
  assumes "heap ls a = \<lparr>array = [], dict = [], Metatable = LNil\<rparr>"
  shows "MsgEncode (Suc n) ls (marker (Array (Some a))) = Some (Inr [0x90])
       \<and> MsgEncode (Suc n) ls (marker (Map (Some a))) = Some (Inr [0x80])
       \<and> MsgEncode (Suc n) ls (LTable a) = Some (Inr [0x80])
       \<and> [0x90 :: byte] \<noteq> [0x80]"
  using assms
  by (simp add: MsgEncode_def lmEncode.simps marker_array_step marker_map_step
        plain_table_step markDupe_def array_items_0 array_header_0 map_header_0 ForEach_def
        Len_def)

theorem empty_containers_witness:
  "heap plain_state 0 = \<lparr>array = [], dict = [], Metatable = LNil\<rparr>
   \<and> MsgEncode (Suc 0) plain_state (marker (Array (Some 0))) = Some (Inr [0x90])
   \<and> MsgEncode (Suc 0) plain_state (marker (Map (Some 0))) = Some (Inr [0x80])
   \<and> MsgEncode (Suc 0) plain_state (LTable 0) = Some (Inr [0x80])"
proof -
  have h: "heap plain_state 0 = \<lparr>array = [], dict = [], Metatable = LNil\<rparr>"
    by (simp add: plain_state_def empty_table_def)
  show ?thesis using h empty_containers [OF h, of 0] by simp
qed

section \<open>Timestamps\<close>

lemma low34_iff: "(s AND push_bit 34 (-1) = 0) = (take_bit 34 s = (s::64 word))"
  by (auto simp add: bit_eq_iff bit_and_iff bit_push_bit_iff bit_take_bit_iff bit_simps)

lemma low34_drop:
  assumes "s AND push_bit 34 (-1) = (0::64 word)"
  shows "drop_bit 34 s = 0"
proof -
  from assms have "take_bit 34 s = s" by (simp only: low34_iff)
  then have "drop_bit 34 s = drop_bit 34 (take_bit 34 s)" by simp
  then show ?thesis by (simp add: drop_bit_take_bit)
qed

lemma low34_drop_iff: "(s AND push_bit 34 (-1) = 0) = (drop_bit 34 s = (0::64 word))"
proof
  assume "s AND push_bit 34 (-1) = 0"
  then show "drop_bit 34 s = 0" by (rule low34_drop)
next
  assume "drop_bit 34 s = 0"
  moreover have "push_bit 34 (drop_bit 34 s) + take_bit 34 s = s" by (rule bits_ident)
  ultimately have "take_bit 34 s = s" by simp
  then show "s AND push_bit 34 (-1) = 0" by (simp only: low34_iff)
qed

lemma word_nonzero_bit: "(w::'a::len word) \<noteq> 0 \<Longrightarrow> \<exists>n. bit w n"
  by (auto simp: bit_eq_iff)

text \<open>The test \<open>s&(-1<<34) != 0\<close> of the source: some bit of \<open>s\<close> from bit 34 on is set.\<close>

lemma outside_low34_iff:
  "(s AND push_bit 34 (-1) \<noteq> 0) = (\<exists>i. 34 \<le> i \<and> bit (s::64 word) i)"
proof
  assume "s AND push_bit 34 (-1) \<noteq> 0"
  then obtain n where "bit (s AND push_bit 34 (-1)) n"
    using word_nonzero_bit by blast
  then show "\<exists>i. 34 \<le> i \<and> bit s i"
    by (auto simp: bit_and_iff bit_not_iff bit_mask_iff not_less)
next
  assume "\<exists>i. 34 \<le> i \<and> bit s i"
  then obtain i where i: "34 \<le> i" "bit s i" by blast
  then have "i < 64" using bit_imp_le_length [of s i] by simp
  with i have "bit (s AND push_bit 34 (-1)) i"
    by (simp add: bit_and_iff bit_not_iff bit_mask_iff)
  then show "s AND push_bit 34 (-1) \<noteq> 0" by auto
qed

lemma Time64_word_low:
  assumes "s AND push_bit 34 (-1) = (0::64 word)"
  shows "take_bit 34 (push_bit 34 w OR s) = s"
  using assms
  by (auto simp add: bit_eq_iff bit_and_iff bit_or_iff bit_push_bit_iff bit_take_bit_iff
        bit_simps)

lemma Time64_word_high:
  assumes "s AND push_bit 34 (-1) = (0::64 word)" "0 \<le> ns" "ns < 1000000000"
  shows "uint (drop_bit 34 (push_bit 34 (of_int ns) OR s :: 64 word)) = ns"
proof -
  have d: "drop_bit 34 s = 0" using assms(1) by (rule low34_drop)
  have "ns < 2 ^ 30" using assms by simp
  then have t: "take_bit 30 ns = ns" using assms by (simp add: take_bit_int_eq_self)
  have "drop_bit 34 (push_bit 34 (of_int ns) OR s :: 64 word) = take_bit 30 (of_int ns)"
    by (simp add: drop_bit_or d)
       (auto simp add: bit_eq_iff bit_push_bit_iff bit_drop_bit_eq bit_take_bit_iff bit_simps
          dest: bit_imp_le_length)
  moreover have "uint (take_bit 30 (of_int ns :: 64 word)) = take_bit 30 ns"
    by (simp add: unsigned_take_bit_eq uint_word_of_int_eq min_def take_bit_int_eq_self)
  ultimately show ?thesis using t by simp
qed

lemma length_AppendUint64: "length (AppendUint64 b v) = length b + 8"
  by (simp add: AppendUint64_def)

lemma lmEncode_plain_time:
  "lmEncode (Suc n) ls (LUserData (GoTimeV t) LNil) buf dupe
     = Some (Inr (Time_PackMsg t buf, dupe))"
  by (simp add: lmEncode.simps lmEncode_step_def GetMetaField_def metatable_def value_step_def
        userdata_step_def)

text \<open>
  C8. A \<open>time.Time\<close> in a userdata without a metatable is encoded by \<open>Time.PackMsg\<close>.
  If some bit of the seconds from bit 34 on is set, the bytes are those of the 96-bit
  form: \<open>0xc7 12 0xff\<close>, the nanoseconds as a big-endian 32-bit word and the seconds as a
  big-endian 64-bit word, 15 bytes. Else, if the nanoseconds are not 0, they are those of
  the 64-bit form: \<open>0xd7 0xff\<close> and one big-endian 64-bit word, 10 bytes; when the
  nanoseconds are in the range the time library keeps, the high 30 bits of the word are
  the nanoseconds and its low 34 bits the seconds. Else they are those of the 32-bit
  form: \<open>0xd6 0xff\<close> and the low 32 bits of the seconds, big-endian, 6 bytes.
\<close>

theorem Time_PackMsg_forms:
  "lmEncode (Suc n) ls (LUserData (GoTimeV t) LNil) buf dupe
        = Some (Inr (Time_PackMsg t buf, dupe))
   \<and> Time_PackMsg t buf =
     (if (\<exists>i. 34 \<le> i \<and> bit (Unix t) i) then
        (let ns = (word_of_int (Nanosecond t) :: 32 word); s = Unix t in
         buf @ [0xc7, 12, 0xff,
                ucast (drop_bit 24 ns), ucast (drop_bit 16 ns), ucast (drop_bit 8 ns), ucast ns,
                ucast (drop_bit 56 s), ucast (drop_bit 48 s), ucast (drop_bit 40 s),
                ucast (drop_bit 32 s), ucast (drop_bit 24 s), ucast (drop_bit 16 s),
                ucast (drop_bit 8 s), ucast s])
      else if Nanosecond t \<noteq> 0 then
        (let w = (push_bit 34 (word_of_int (Nanosecond t)) OR Unix t :: 64 word) in
         buf @ [0xd7, 0xff,
                ucast (drop_bit 56 w), ucast (drop_bit 48 w), ucast (drop_bit 40 w),
                ucast (drop_bit 32 w), ucast (drop_bit 24 w), ucast (drop_bit 16 w),
                ucast (drop_bit 8 w), ucast w])
      else
        (let s = (ucast (Unix t) :: 32 word) in
         buf @ [0xd6, 0xff,
                ucast (drop_bit 24 s), ucast (drop_bit 16 s), ucast (drop_bit 8 s), ucast s]))
   \<and> length (Time_PackMsg t buf) = length buf +
        (if (\<exists>i. 34 \<le> i \<and> bit (Unix t) i) then 15 else if Nanosecond t \<noteq> 0 then 10 else 6)
   \<and> (\<not> (\<exists>i. 34 \<le> i \<and> bit (Unix t) i) \<and> 0 < Nanosecond t \<and> Nanosecond t < 1000000000 \<longrightarrow>
        (\<exists>w. Time_PackMsg t buf = buf @ [0xd7, 0xff] @ AppendUint64 [] w
            \<and> length (Time_PackMsg t buf) = length buf + 10
            \<and> uint (drop_bit 34 w) = Nanosecond t
            \<and> take_bit 34 w = Unix t))"
proof (intro conjI impI)
  show "lmEncode (Suc n) ls (LUserData (GoTimeV t) LNil) buf dupe
        = Some (Inr (Time_PackMsg t buf, dupe))"
    by (rule lmEncode_plain_time)
  show f: "Time_PackMsg t buf =
     (if (\<exists>i. 34 \<le> i \<and> bit (Unix t) i) then
        (let ns = (word_of_int (Nanosecond t) :: 32 word); s = Unix t in
         buf @ [0xc7, 12, 0xff,
                ucast (drop_bit 24 ns), ucast (drop_bit 16 ns), ucast (drop_bit 8 ns), ucast ns,
                ucast (drop_bit 56 s), ucast (drop_bit 48 s), ucast (drop_bit 40 s),
                ucast (drop_bit 32 s), ucast (drop_bit 24 s), ucast (drop_bit 16 s),
                ucast (drop_bit 8 s), ucast s])
      else if Nanosecond t \<noteq> 0 then
        (let w = (push_bit 34 (word_of_int (Nanosecond t)) OR Unix t :: 64 word) in
         buf @ [0xd7, 0xff,
                ucast (drop_bit 56 w), ucast (drop_bit 48 w), ucast (drop_bit 40 w),
                ucast (drop_bit 32 w), ucast (drop_bit 24 w), ucast (drop_bit 16 w),
                ucast (drop_bit 8 w), ucast w])
      else
        (let s = (ucast (Unix t) :: 32 word) in
         buf @ [0xd6, 0xff,
                ucast (drop_bit 24 s), ucast (drop_bit 16 s), ucast (drop_bit 8 s), ucast s]))"
    unfolding outside_low34_iff [symmetric]
    by (simp add: Time_PackMsg_def Time96_PackMsg_def Time64_PackMsg_def Time32_PackMsg_def
          AppendUint32_def AppendUint64_def Let_def)
  show "length (Time_PackMsg t buf) = length buf +
        (if (\<exists>i. 34 \<le> i \<and> bit (Unix t) i) then 15 else if Nanosecond t \<noteq> 0 then 10 else 6)"
    by (simp add: f Let_def)
next
  assume a: "\<not> (\<exists>i. 34 \<le> i \<and> bit (Unix t) i) \<and> 0 < Nanosecond t \<and> Nanosecond t < 1000000000"
  then have m: "Unix t AND push_bit 34 (-1) = 0"
    unfolding outside_low34_iff [symmetric] by simp
  let ?w = "push_bit 34 (of_int (Nanosecond t)) OR Unix t :: 64 word"
  have e: "Time_PackMsg t buf = buf @ [0xd7, 0xff] @ AppendUint64 [] ?w"
    using a m by (simp add: Time_PackMsg_def Time64_PackMsg_def Let_def AppendUint64_def)
  have "length (Time_PackMsg t buf) = length buf + 10"
    by (simp add: e length_AppendUint64)
  moreover have "uint (drop_bit 34 ?w) = Nanosecond t"
    using a by (intro Time64_word_high [OF m]) simp_all
  moreover have "take_bit 34 ?w = Unix t" by (rule Time64_word_low [OF m])
  ultimately show "\<exists>w. Time_PackMsg t buf = buf @ [0xd7, 0xff] @ AppendUint64 [] w
            \<and> length (Time_PackMsg t buf) = length buf + 10
            \<and> uint (drop_bit 34 w) = Nanosecond t
            \<and> take_bit 34 w = Unix t"
    using e by blast
qed

theorem Time_PackMsg_forms_witness:
  "\<not> (\<exists>i. 34 \<le> i \<and> bit (Unix test_time) i) \<and> 0 < Nanosecond test_time
   \<and> Nanosecond test_time < 1000000000
   \<and> length (Time_PackMsg test_time []) = 10
   \<and> Time_PackMsg test_time [] = [0xd7, 0xff, 0, 0, 0, 160, 49, 53, 125, 238]
   \<and> MsgEncode (Suc 0) plain_state (LUserData (GoTimeV test_time) LNil)
       = Some (Inr [0xd7, 0xff, 0, 0, 0, 160, 49, 53, 125, 238])
   \<and> Time_PackMsg time32_example [] = [0xd6, 0xff, 49, 53, 125, 238]
   \<and> (\<exists>i. 34 \<le> i \<and> bit (Unix time96_example) i)
   \<and> Time_PackMsg time96_example []
       = [0xc7, 12, 0xff, 0, 0, 0, 40, 0, 0, 0, 4, 0, 0, 0, 0]"
proof -
  have h: "\<not> (\<exists>i. 34 \<le> i \<and> bit (Unix test_time) i)"
    unfolding outside_low34_iff [symmetric] low34_drop_iff by (simp add: test_time_def)
  have h32: "\<not> (\<exists>i. 34 \<le> i \<and> bit (Unix time32_example) i)"
    unfolding outside_low34_iff [symmetric] low34_drop_iff by (simp add: time32_example_def)
  have h96: "\<exists>i. 34 \<le> i \<and> bit (Unix time96_example) i"
    unfolding outside_low34_iff [symmetric] low34_drop_iff by (simp add: time96_example_def)
  have n: "0 < Nanosecond test_time \<and> Nanosecond test_time < 1000000000"
    by (simp add: test_time_def)
  have a: "Time_PackMsg test_time [] = [0xd7, 0xff, 0, 0, 0, 160, 49, 53, 125, 238]"
    using Time_PackMsg_forms [of 0 plain_state test_time "[]" "{}"] h n
    by (simp add: test_time_def)
  have b: "Time_PackMsg time32_example [] = [0xd6, 0xff, 49, 53, 125, 238]"
    using Time_PackMsg_forms [of 0 plain_state time32_example "[]" "{}"] h32
    by (simp add: time32_example_def)
  have c: "Time_PackMsg time96_example []
       = [0xc7, 12, 0xff, 0, 0, 0, 40, 0, 0, 0, 4, 0, 0, 0, 0]"
    using Time_PackMsg_forms [of 0 plain_state time96_example "[]" "{}"] h96
    by (simp add: time96_example_def)
  have d: "MsgEncode (Suc 0) plain_state (LUserData (GoTimeV test_time) LNil)
       = Some (Inr [0xd7, 0xff, 0, 0, 0, 160, 49, 53, 125, 238])"
    using Time_PackMsg_forms [of 0 plain_state test_time "[]" "{}"] a
    by (simp add: MsgEncode_def)
  from h n a b c d h96 show ?thesis by simp
qed

text \<open>
  The 32-bit form is also taken for seconds of 33 and 34 bits without nanoseconds; it
  keeps their low 32 bits.
\<close>

lemma Time32_PackMsg_truncates:
  "Time_PackMsg \<lparr>Unix = 0x100000000, Nanosecond = 0\<rparr> [] = [0xd6, 0xff, 0, 0, 0, 0]"
proof -
  have "(0x100000000 :: 64 word) AND push_bit 34 (-1) = 0"
    unfolding low34_drop_iff by simp
  then show ?thesis
    by (simp only: Time_PackMsg_def Let_def GoTime.simps)
       (simp add: Time32_PackMsg_def AppendUint32_def)
qed

section \<open>Representation overrides\<close>






section \<open>The cycle guard\<close>

text \<open>The kind of step \<open>lmEncode\<close> takes on a value does not depend on the buffer.\<close>

lemma userdata_step_shape:
  "step_shape (userdata_step ls v ud buf) = step_shape (userdata_step ls v ud [])"
  by (cases ud) (simp_all add: userdata_step_def split: option.splits sum.splits)

lemma value_step_shape:
  "step_shape (value_step ls v buf) = step_shape (value_step ls v [])"
proof (cases v)
  case (LUserData ud mt)
  then show ?thesis using userdata_step_shape [of ls v ud buf] by (simp add: value_step_def)
qed (simp_all add: value_step_def number_step_def split: sum.splits)

lemma lmEncode_step_shape:
  "step_shape (lmEncode_step ls v buf) = step_shape (lmEncode_step ls v [])"
  using value_step_shape [of ls v buf]
  by (cases "GetMetaField ls v ''__msgpack''")
     (simp_all add: lmEncode_step_def split: CallResult.splits)

lemma ObjLen_no_cycle: "ObjLen ls v \<noteq> Inl ObjectContainedCycle"
proof (cases "GetMetaField ls v ''__len''")
  case (LFunction op)
  then show ?thesis
    by (cases v; cases "Call ls op [v]") (simp_all add: ObjLen_def split: LValue.splits)
qed (cases v; simp add: ObjLen_def)+

lemma userdata_step_no_cycle: "userdata_step ls v ud buf \<noteq> Fail ObjectContainedCycle"
  using ObjLen_no_cycle [of ls v]
  by (cases ud) (auto simp add: userdata_step_def split: option.splits sum.splits)

lemma value_step_no_cycle: "value_step ls v buf \<noteq> Fail ObjectContainedCycle"
  using ObjLen_no_cycle [of ls v]
  by (cases v) (auto simp add: value_step_def number_step_def userdata_step_no_cycle split: sum.splits)

lemma lmEncode_step_no_cycle: "lmEncode_step ls v buf \<noteq> Fail ObjectContainedCycle"
  by (cases "GetMetaField ls v ''__msgpack''")
     (simp_all add: lmEncode_step_def value_step_no_cycle split: CallResult.splits)

lemma visit_Leaf:
  assumes "visit ls v = Leaf"
  shows "(\<exists>b. lmEncode_step ls v buf = Emit b)
       \<or> (\<exists>e. lmEncode_step ls v buf = Fail e \<and> e \<noteq> ObjectContainedCycle)"
  using assms lmEncode_step_shape [of ls v buf] lmEncode_step_no_cycle [of ls v buf]
  by (cases "lmEncode_step ls v buf"; cases "lmEncode_step ls v []") (auto simp: visit_def)

lemma visit_Subst:
  assumes "visit ls v = Subst v'"
  shows "lmEncode_step ls v buf = Substitute v'"
  using assms lmEncode_step_shape [of ls v buf]
  by (cases "lmEncode_step ls v buf"; cases "lmEncode_step ls v []") (auto simp: visit_def)

lemma visit_Container:
  assumes "visit ls v = Container a vs"
  shows "(\<exists>vlen. lmEncode_step ls v buf = AsArray a vlen \<and> vs = array_items (heap ls a) vlen)
       \<or> (lmEncode_step ls v buf = AsMap a \<and> vs = entry_items (ForEach (heap ls a)))"
  using assms lmEncode_step_shape [of ls v buf]
  by (cases "lmEncode_step ls v buf"; cases "lmEncode_step ls v []") (auto simp: visit_def)

text \<open>
  The callback of \<open>ForEach\<close> encodes the keys and values in turn, as the loop over the
  elements of an array does.
\<close>

lemma entry_items_Cons: "entry_items ((k, v) # es) = k # v # entry_items es"
  by (simp add: entry_items_def)

lemma lmEncodeEntries_Elems:
  "lmEncodeEntries n ls es vlen mapbuf dupe =
     (case lmEncodeElems n ls (entry_items es) mapbuf dupe of
        None \<Rightarrow> None
      | Some (Inl e) \<Rightarrow> Some (Inl e)
      | Some (Inr (b, d)) \<Rightarrow> Some (Inr (vlen + length es, b, d)))"
proof (induction es arbitrary: vlen mapbuf dupe)
  case Nil
  show ?case by (simp add: entry_items_def lmEncode.simps)
next
  case (Cons kv es)
  obtain k v where kv: "kv = (k, v)" by (cases kv)
  show ?case
    unfolding kv entry_items_Cons
    by (simp add: lmEncode.simps Cons.IH split: option.splits sum.splits prod.splits)
qed

lemma guard_ok_tree_forest:
  "tree ls v A \<Longrightarrow> dupe \<inter> A = {} \<Longrightarrow> guard_ok (lmEncode n ls v buf dupe) (dupe \<union> A)"
  "forest ls vs B \<Longrightarrow> dupe \<inter> B = {} \<Longrightarrow> guard_ok (lmEncodeElems n ls vs buf dupe) (dupe \<union> B)"
proof (induction arbitrary: n buf dupe and n buf dupe rule: tree_forest.inducts)
  case (tree_leaf v)
  show ?case
  proof (cases n)
    case 0
    then show ?thesis by (simp add: lmEncode_0 guard_ok_def)
  next
    case (Suc m)
    from visit_Leaf [OF tree_leaf(1), of buf] show ?thesis
      by (auto simp: Suc lmEncode.simps guard_ok_def)
  qed
next
  case (tree_subst v v' A)
  show ?case
  proof (cases n)
    case 0
    then show ?thesis by (simp add: lmEncode_0 guard_ok_def)
  next
    case (Suc m)
    have "lmEncode (Suc m) ls v buf dupe = lmEncode m ls v' buf dupe"
      by (simp add: lmEncode.simps visit_Subst [OF tree_subst(1)])
    with tree_subst(3) [OF tree_subst(4)] show ?thesis by (simp add: Suc)
  qed
next
  case (tree_node v a vs A)
  show ?case
  proof (cases n)
    case 0
    then show ?thesis by (simp add: lmEncode_0 guard_ok_def)
  next
    case (Suc m)
    from tree_node(5) have a: "a \<notin> dupe" and d: "insert a dupe \<inter> A = {}"
      using tree_node(4) by auto
    have u: "insert a dupe \<union> A = dupe \<union> insert a A" by auto
    from visit_Container [OF tree_node(1), of buf] show ?thesis
    proof
      assume "\<exists>vlen. lmEncode_step ls v buf = AsArray a vlen \<and> vs = array_items (heap ls a) vlen"
      then obtain vlen where s: "lmEncode_step ls v buf = AsArray a vlen"
        and vs: "vs = array_items (heap ls a) vlen" by blast
      have "lmEncode (Suc m) ls v buf dupe
              = lmEncodeElems m ls vs (array_header vlen buf) (insert a dupe)"
        using a by (simp add: lmEncode.simps s vs markDupe_def)
      with tree_node(3) [OF d, of m "array_header vlen buf"] show ?thesis
        by (simp add: Suc u)
    next
      assume "lmEncode_step ls v buf = AsMap a \<and> vs = entry_items (ForEach (heap ls a))"
      then have s: "lmEncode_step ls v buf = AsMap a"
        and vs: "vs = entry_items (ForEach (heap ls a))" by blast+
      have "guard_ok (lmEncodeElems m ls vs [] (insert a dupe)) (dupe \<union> insert a A)"
        using tree_node(3) [OF d, of m "[]"] by (simp add: u)
      then show ?thesis
        using a
        by (auto simp: Suc lmEncode.simps s vs markDupe_def lmEncodeEntries_Elems guard_ok_def
              split: option.splits sum.splits prod.splits)
    qed
  qed
next
  case forest_nil
  show ?case by (simp add: lmEncode.simps guard_ok_def)
next
  case (forest_cons v A vs B)
  from forest_cons(6) have dA: "dupe \<inter> A = {}" and dB: "dupe \<inter> B = {}" by auto
  show ?case
  proof (cases "lmEncode n ls v buf dupe")
    case None
    then show ?thesis by (simp add: lmEncode.simps guard_ok_def)
  next
    case (Some r)
    show ?thesis
    proof (cases r)
      case (Inl e)
      with forest_cons(2) [OF dA, of n buf] Some show ?thesis
        by (simp add: lmEncode.simps guard_ok_def)
    next
      case (Inr p)
      obtain b' d' where p: "p = (b', d')" by (cases p)
      from forest_cons(2) [OF dA, of n buf] Some Inr p have d': "d' = dupe \<union> A"
        by (simp add: guard_ok_def)
      have "d' \<inter> B = {}" using d' dB forest_cons(5) by auto
      from forest_cons(4) [OF this, of n b']
      have "guard_ok (lmEncodeElems n ls vs b' d') (dupe \<union> (A \<union> B))"
        by (simp add: d' Un_assoc)
      then show ?thesis by (simp add: lmEncode.simps Some Inr p)
    qed
  qed
qed

lemma array_items_1: "array tb = [e] \<Longrightarrow> array_items tb 1 = [e]"
  by (simp add: array_items_def RawGetInt_def)

lemma array_items_2: "array tb = [e1, e2] \<Longrightarrow> array_items tb 2 = [e1, e2]"
  by (simp add: array_items_def RawGetInt_def upt_rec numeral_eq_Suc)

text \<open>
  The set the encoder leaves and the error it raises do not depend on the buffer it
  writes to.
\<close>

lemma outcome_simps:
  "outcome None = None"
  "outcome (Some (Inl e)) = Some (Inl e)"
  "outcome (Some (Inr (b, d))) = Some (Inr d)"
  by (simp_all add: outcome_def)

lemma outcome_eq_None: "(outcome r = None) = (r = None)"
  by (simp add: outcome_def)

lemma outcome_eq_Inl: "(outcome r = Some (Inl e)) = (r = Some (Inl e))"
  by (cases r) (auto simp: outcome_def map_sum_def split: sum.splits)

lemma outcome_eq_Inr: "(outcome r = Some (Inr d)) = (\<exists>b. r = Some (Inr (b, d)))"
  by (cases r) (auto simp: outcome_def map_sum_def split: sum.splits)

lemma step_Emit: "lmEncode_step ls v [] = Emit b0 \<Longrightarrow> \<exists>b. lmEncode_step ls v buf = Emit b"
  using lmEncode_step_shape [of ls v buf] by (cases "lmEncode_step ls v buf") auto

lemma step_Fail: "lmEncode_step ls v [] = Fail e \<Longrightarrow> lmEncode_step ls v buf = Fail e"
  using lmEncode_step_shape [of ls v buf] by (cases "lmEncode_step ls v buf") auto

lemma step_Substitute:
  "lmEncode_step ls v [] = Substitute v' \<Longrightarrow> lmEncode_step ls v buf = Substitute v'"
  using lmEncode_step_shape [of ls v buf] by (cases "lmEncode_step ls v buf") auto

lemma step_AsArray:
  "lmEncode_step ls v [] = AsArray a vlen \<Longrightarrow> lmEncode_step ls v buf = AsArray a vlen"
  using lmEncode_step_shape [of ls v buf] by (cases "lmEncode_step ls v buf") auto

lemma step_AsMap: "lmEncode_step ls v [] = AsMap a \<Longrightarrow> lmEncode_step ls v buf = AsMap a"
  using lmEncode_step_shape [of ls v buf] by (cases "lmEncode_step ls v buf") auto

lemma outcome_Elems_buf:
  assumes H: "\<And>v buf buf' D. outcome (lmEncode n ls v buf D) = outcome (lmEncode n ls v buf' D)"
  shows "outcome (lmEncodeElems n ls vs buf D) = outcome (lmEncodeElems n ls vs buf' D)"
proof (induction vs arbitrary: buf buf' D)
  case Nil
  show ?case by (simp add: lmEncode.simps outcome_simps)
next
  case (Cons v vs)
  have H': "outcome (lmEncode n ls v buf' D) = outcome (lmEncode n ls v buf D)"
    by (rule H)
  show ?case
  proof (cases "outcome (lmEncode n ls v buf D)")
    case None
    then have "outcome (lmEncode n ls v buf' D) = None" by (simp only: H')
    with None have "lmEncode n ls v buf D = None" "lmEncode n ls v buf' D = None"
      by (simp_all only: outcome_eq_None)
    then show ?thesis by (simp add: lmEncode.simps)
  next
    case (Some r)
    show ?thesis
    proof (cases r)
      case (Inl e)
      with Some have 1: "outcome (lmEncode n ls v buf D) = Some (Inl e)" by simp
      then have "outcome (lmEncode n ls v buf' D) = Some (Inl e)" by (simp only: H')
      with 1 have "lmEncode n ls v buf D = Some (Inl e)" "lmEncode n ls v buf' D = Some (Inl e)"
        by (simp_all only: outcome_eq_Inl)
      then show ?thesis by (simp add: lmEncode.simps)
    next
      case (Inr d)
      with Some have 1: "outcome (lmEncode n ls v buf D) = Some (Inr d)" by simp
      then have 2: "outcome (lmEncode n ls v buf' D) = Some (Inr d)" by (simp only: H')
      from 1 obtain b where b: "lmEncode n ls v buf D = Some (Inr (b, d))"
        unfolding outcome_eq_Inr by blast
      from 2 obtain b' where b': "lmEncode n ls v buf' D = Some (Inr (b', d))"
        unfolding outcome_eq_Inr by blast
      show ?thesis using Cons.IH [of b d b'] by (simp add: lmEncode.simps b b')
    qed
  qed
qed

lemma outcome_buf:
  "outcome (lmEncode n ls v buf D) = outcome (lmEncode n ls v buf' D)"
proof (induction n arbitrary: v buf buf' D)
  case 0
  show ?case by (simp add: lmEncode_0)
next
  case (Suc n)
  note E = outcome_Elems_buf [of n ls, OF Suc.IH]
  show ?case
  proof (cases "lmEncode_step ls v []")
    case (Emit b0)
    from step_Emit [OF Emit, of buf] step_Emit [OF Emit, of buf'] show ?thesis
      by (auto simp: lmEncode.simps outcome_simps)
  next
    case (Fail e)
    from step_Fail [OF Fail, of buf] step_Fail [OF Fail, of buf'] show ?thesis
      by (simp add: lmEncode.simps)
  next
    case (Substitute v')
    from step_Substitute [OF Substitute, of buf] step_Substitute [OF Substitute, of buf']
    show ?thesis using Suc.IH [of v' buf D buf'] by (simp add: lmEncode.simps)
  next
    case (AsArray a vlen)
    from step_AsArray [OF AsArray, of buf] step_AsArray [OF AsArray, of buf']
    show ?thesis
      using E [of "array_items (heap ls a) vlen" "array_header vlen buf" "insert a D"
                  "array_header vlen buf'"]
      by (simp add: lmEncode.simps markDupe_def)
  next
    case (AsMap a)
    from step_AsMap [OF AsMap, of buf] step_AsMap [OF AsMap, of buf']
    show ?thesis
      by (cases "lmEncodeEntries n ls (ForEach (heap ls a)) 0 [] (insert a D)")
         (auto simp add: lmEncode.simps markDupe_def outcome_simps split: sum.splits)
  qed
qed

lemma outcome_Elems:
  "outcome (lmEncodeElems n ls vs buf D) = outcome (lmEncodeElems n ls vs buf' D)"
  by (rule outcome_Elems_buf) (rule outcome_buf)

text \<open>The encoder without the bytes, equation by equation.\<close>

lemma walk_0: "walk 0 ls v D = None"
  by (simp add: walk_def lmEncode_0 outcome_simps)

lemma walk_list_Nil: "walk_list n ls [] D = Some (Inr D)"
  by (simp add: walk_list_def lmEncode.simps outcome_simps)

lemma walk_list_Cons:
  "walk_list n ls (v # vs) D =
     (case walk n ls v D of
        None \<Rightarrow> None
      | Some (Inl e) \<Rightarrow> Some (Inl e)
      | Some (Inr D') \<Rightarrow> walk_list n ls vs D')"
proof (cases "lmEncode n ls v [] D")
  case None
  then show ?thesis by (simp add: walk_def walk_list_def lmEncode.simps outcome_simps)
next
  case (Some r)
  show ?thesis
  proof (cases r)
    case (Inl e)
    with Some show ?thesis by (simp add: walk_def walk_list_def lmEncode.simps outcome_simps)
  next
    case (Inr p)
    obtain b d where p: "p = (b, d)" by (cases p)
    show ?thesis
      using outcome_Elems [of n ls vs b d "[]"]
      by (simp add: walk_def walk_list_def lmEncode.simps Some Inr p outcome_simps)
  qed
qed

lemma walk_Emit: "lmEncode_step ls v [] = Emit b \<Longrightarrow> walk (Suc n) ls v D = Some (Inr D)"
  by (simp add: walk_def lmEncode.simps outcome_simps)

lemma walk_Fail: "lmEncode_step ls v [] = Fail e \<Longrightarrow> walk (Suc n) ls v D = Some (Inl e)"
  by (simp add: walk_def lmEncode.simps outcome_simps)

lemma walk_Subst: "visit ls v = Subst v' \<Longrightarrow> walk (Suc n) ls v D = walk n ls v' D"
  by (simp add: walk_def lmEncode.simps visit_Subst)

lemma walk_Container:
  assumes "visit ls v = Container a vs"
  shows "walk (Suc n) ls v D =
           (if a \<in> D then Some (Inl ObjectContainedCycle) else walk_list n ls vs (insert a D))"
proof -
  from visit_Container [OF assms, of "[]"] show ?thesis
  proof
    assume "\<exists>vlen. lmEncode_step ls v [] = AsArray a vlen \<and> vs = array_items (heap ls a) vlen"
    then obtain vlen where s: "lmEncode_step ls v [] = AsArray a vlen"
      and vs: "vs = array_items (heap ls a) vlen" by blast
    show ?thesis
      using outcome_Elems [of n ls vs "array_header vlen []" "insert a D" "[]"]
      by (simp add: walk_def walk_list_def lmEncode.simps s vs markDupe_def outcome_simps)
  next
    assume "lmEncode_step ls v [] = AsMap a \<and> vs = entry_items (ForEach (heap ls a))"
    then have s: "lmEncode_step ls v [] = AsMap a"
      and vs: "vs = entry_items (ForEach (heap ls a))" by blast+
    show ?thesis
      by (cases "lmEncodeElems n ls (entry_items (ForEach (heap ls a))) [] (insert a D)")
         (auto simp add: walk_def walk_list_def lmEncode.simps s vs markDupe_def outcome_simps
            lmEncodeEntries_Elems split: sum.splits)
  qed
qed

lemma walk_lmEncode: "outcome (lmEncode n ls v buf D) = walk n ls v D"
  unfolding walk_def by (rule outcome_buf)

lemma visit_cases:
  obtains (Emit) b where "lmEncode_step ls v [] = Emit b" "visit ls v = Leaf"
  | (Fail) e where "lmEncode_step ls v [] = Fail e" "e \<noteq> ObjectContainedCycle" "visit ls v = Leaf"
  | (Subst) v' where "visit ls v = Subst v'"
  | (Container) a vs where "visit ls v = Container a vs"
  using lmEncode_step_no_cycle [of ls v "[]"]
  by (cases "lmEncode_step ls v []") (auto simp: visit_def)

lemma walk_list_Suc:
  assumes H: "\<And>v D r. walk n ls v D = Some r \<Longrightarrow> walk (Suc n) ls v D = Some r"
  shows "walk_list n ls vs D = Some r \<Longrightarrow> walk_list (Suc n) ls vs D = Some r"
proof (induction vs arbitrary: D)
  case Nil
  then show ?case by (simp add: walk_list_Nil)
next
  case (Cons v vs)
  from Cons.prems obtain r1 where 1: "walk n ls v D = Some r1"
    by (cases "walk n ls v D") (simp_all add: walk_list_Cons)
  note 2 = H [OF 1]
  show ?case
  proof (cases r1)
    case (Inl e)
    with Cons.prems 1 have "r = Inl e" by (simp add: walk_list_Cons)
    with 2 Inl show ?thesis by (simp add: walk_list_Cons)
  next
    case (Inr D1)
    with Cons.prems 1 have "walk_list n ls vs D1 = Some r" by (simp add: walk_list_Cons)
    from Cons.IH [OF this] show ?thesis by (simp add: walk_list_Cons 2 Inr)
  qed
qed

lemma walk_Suc: "walk n ls v D = Some r \<Longrightarrow> walk (Suc n) ls v D = Some r"
proof (induction n arbitrary: v D r)
  case 0
  then show ?case by (simp add: walk_0)
next
  case (Suc n)
  show ?case
  proof (cases ls v rule: visit_cases)
    case (Emit b)
    with Suc.prems show ?thesis by (simp add: walk_Emit)
  next
    case (Fail e)
    with Suc.prems show ?thesis by (simp add: walk_Fail)
  next
    case (Subst v')
    with Suc.prems Suc.IH [of v' D r] show ?thesis by (simp add: walk_Subst)
  next
    case (Container a vs)
    show ?thesis
    proof (cases "a \<in> D")
      case True
      with Suc.prems show ?thesis by (simp add: walk_Container [OF Container])
    next
      case False
      with Suc.prems have "walk_list n ls vs (insert a D) = Some r"
        by (simp add: walk_Container [OF Container])
      then have "walk_list (Suc n) ls vs (insert a D) = Some r"
        by (rule walk_list_Suc [rotated]) (rule Suc.IH)
      with False show ?thesis by (simp add: walk_Container [OF Container])
    qed
  qed
qed

lemma walk_list_fuel: "walk_list n ls vs D = Some r \<Longrightarrow> walk_list (Suc n) ls vs D = Some r"
  by (rule walk_list_Suc [OF walk_Suc])

lemma walk_list_append:
  "walk_list n ls (xs @ ys) D =
     (case walk_list n ls xs D of
        None \<Rightarrow> None
      | Some (Inl e) \<Rightarrow> Some (Inl e)
      | Some (Inr D') \<Rightarrow> walk_list n ls ys D')"
proof (induction xs arbitrary: D)
  case Nil
  show ?case by (simp add: walk_list_Nil)
next
  case (Cons x xs)
  show ?case
    by (simp add: walk_list_Cons Cons.IH split: option.splits sum.splits)
qed

lemma walk_list_rest:
  assumes "walk n ls v D = Some (Inl ObjectContainedCycle)
         \<or> (\<exists>D'. walk n ls v D = Some (Inr D') \<and> walk_list m ls rest D' = Some (Inl ObjectContainedCycle))"
    and "m \<le> n"
  shows "walk_list n ls (v # rest) D = Some (Inl ObjectContainedCycle)"
proof -
  have up: "walk_list m ls rest D' = Some r \<Longrightarrow> walk_list n ls rest D' = Some r" for D' r
    using assms(2)
  proof (induction n)
    case 0
    then show ?case by simp
  next
    case (Suc n)
    then show ?case by (cases "m = Suc n") (auto intro: walk_list_fuel)
  qed
  from assms(1) show ?thesis
    by (auto simp: walk_list_Cons dest: up)
qed

lemma revisits_walk_list:
  "revisits ls stack seen \<Longrightarrow> \<exists>k. \<forall>n. walk_list (k + n) ls stack seen = Some (Inl ObjectContainedCycle)"
proof (induction rule: revisits.induct)
  case (revisits_again v a vs seen rest)
  then have "\<forall>n. walk_list (Suc 0 + n) ls (v # rest) seen = Some (Inl ObjectContainedCycle)"
    by (simp add: walk_list_Cons walk_Container)
  then show ?case by blast
next
  case (revisits_enter v a vs seen rest)
  then obtain k where
    k: "\<And>n. walk_list (k + n) ls (vs @ rest) (insert a seen) = Some (Inl ObjectContainedCycle)"
    by blast
  have "walk_list (Suc k + n) ls (v # rest) seen = Some (Inl ObjectContainedCycle)" for n
  proof (rule walk_list_rest [where m = "k + n"])
    have w: "walk (Suc k + n) ls v seen = walk_list (k + n) ls vs (insert a seen)"
      using revisits_enter(1,2) by (simp add: walk_Container)
    from k [of n] show "walk (Suc k + n) ls v seen = Some (Inl ObjectContainedCycle)
      \<or> (\<exists>D'. walk (Suc k + n) ls v seen = Some (Inr D')
              \<and> walk_list (k + n) ls rest D' = Some (Inl ObjectContainedCycle))"
      unfolding w walk_list_append by (auto split: option.splits sum.splits)
  qed simp
  then show ?case by blast
next
  case (revisits_follow v v' rest seen)
  then obtain k where
    k: "\<And>n. walk_list (k + n) ls (v' # rest) seen = Some (Inl ObjectContainedCycle)"
    by blast
  have "walk_list (Suc k + n) ls (v # rest) seen = Some (Inl ObjectContainedCycle)" for n
  proof (rule walk_list_rest [where m = "k + n"])
    have w: "walk (Suc k + n) ls v seen = walk (k + n) ls v' seen"
      using revisits_follow(1) by (simp add: walk_Subst)
    from k [of n] show "walk (Suc k + n) ls v seen = Some (Inl ObjectContainedCycle)
      \<or> (\<exists>D'. walk (Suc k + n) ls v seen = Some (Inr D')
              \<and> walk_list (k + n) ls rest D' = Some (Inl ObjectContainedCycle))"
      unfolding w walk_list_Cons by (auto split: option.splits sum.splits)
  qed simp
  then show ?case by blast
next
  case (revisits_pass v b rest seen)
  then obtain k where
    k: "\<And>n. walk_list (k + n) ls rest seen = Some (Inl ObjectContainedCycle)"
    by blast
  have "walk_list (Suc k + n) ls (v # rest) seen = Some (Inl ObjectContainedCycle)" for n
  proof (rule walk_list_rest [where m = "k + n"])
    from k [of n] show "walk (Suc k + n) ls v seen = Some (Inl ObjectContainedCycle)
      \<or> (\<exists>D'. walk (Suc k + n) ls v seen = Some (Inr D')
              \<and> walk_list (k + n) ls rest D' = Some (Inl ObjectContainedCycle))"
      using revisits_pass(1) by (simp add: walk_Emit)
  qed simp
  then show ?case by blast
qed

lemma walk_list_revisits:
  assumes H1: "\<And>v D rest. walk n ls v D = Some (Inl ObjectContainedCycle) \<Longrightarrow> revisits ls (v # rest) D"
    and H2: "\<And>v D D' rest. walk n ls v D = Some (Inr D') \<Longrightarrow> revisits ls rest D'
                \<Longrightarrow> revisits ls (v # rest) D"
  shows "walk_list n ls vs D = Some (Inl ObjectContainedCycle) \<Longrightarrow> revisits ls (vs @ rest) D"
    and "walk_list n ls vs D = Some (Inr D') \<Longrightarrow> revisits ls rest D' \<Longrightarrow> revisits ls (vs @ rest) D"
proof (induction vs arbitrary: D)
  case Nil
  {
    case 1
    then show ?case by (simp add: walk_list_Nil)
  next
    case 2
    then show ?case by (simp add: walk_list_Nil)
  }
next
  case (Cons v vs)
  {
    case 1
    then consider "walk n ls v D = Some (Inl ObjectContainedCycle)"
      | D1 where "walk n ls v D = Some (Inr D1)"
          "walk_list n ls vs D1 = Some (Inl ObjectContainedCycle)"
      by (auto simp: walk_list_Cons split: option.splits sum.splits)
    then show ?case
    proof cases
      case 1
      then show ?thesis by (simp add: H1)
    next
      case 2
      from H2 [OF 2(1) Cons.IH(1) [OF 2(2)]] show ?thesis by simp
    qed
  next
    case 2
    then obtain D1 where 1: "walk n ls v D = Some (Inr D1)"
      and 3: "walk_list n ls vs D1 = Some (Inr D')"
      by (auto simp: walk_list_Cons split: option.splits sum.splits)
    from H2 [OF 1 Cons.IH(2) [OF 3 2(2)]] show ?case by simp
  }
qed

lemma walk_revisits:
  "walk n ls v D = Some (Inl ObjectContainedCycle) \<Longrightarrow> revisits ls (v # rest) D"
  "walk n ls v D = Some (Inr D') \<Longrightarrow> revisits ls rest D' \<Longrightarrow> revisits ls (v # rest) D"
proof (induction n arbitrary: v D D' rest)
  case 0
  {
    case 1
    then show ?case by (simp add: walk_0)
  next
    case 2
    then show ?case by (simp add: walk_0)
  }
next
  case (Suc n)
  have L1: "revisits ls (vs @ rest) D"
    if "walk_list n ls vs D = Some (Inl ObjectContainedCycle)" for vs D rest
    using that
    by (rule walk_list_revisits(1) [rotated 2]) (erule Suc.IH(1), erule Suc.IH(2), assumption)
  have L2: "revisits ls (vs @ rest) D"
    if "walk_list n ls vs D = Some (Inr D')" "revisits ls rest D'" for vs D D' rest
    using that
    by (rule walk_list_revisits(2) [rotated 2]) (erule Suc.IH(1), erule Suc.IH(2), assumption)
  {
    case 1
    show ?case
    proof (cases ls v rule: visit_cases)
      case (Emit b)
      with 1 show ?thesis by (simp add: walk_Emit)
    next
      case (Fail e)
      with 1 show ?thesis by (simp add: walk_Fail)
    next
      case (Subst v')
      with 1 have "walk n ls v' D = Some (Inl ObjectContainedCycle)" by (simp add: walk_Subst)
      from revisits_follow [OF Subst Suc.IH(1) [OF this]] show ?thesis .
    next
      case (Container a vs)
      show ?thesis
      proof (cases "a \<in> D")
        case True
        with Container show ?thesis by (rule revisits_again)
      next
        case False
        with 1 have "walk_list n ls vs (insert a D) = Some (Inl ObjectContainedCycle)"
          by (simp add: walk_Container [OF Container])
        from revisits_enter [OF Container False L1 [OF this]] show ?thesis .
      qed
    qed
  next
    case 2
    show ?case
    proof (cases ls v rule: visit_cases)
      case (Emit b)
      with 2 have "D' = D" by (simp add: walk_Emit)
      with revisits_pass [OF Emit(1) 2(2)] show ?thesis by simp
    next
      case (Fail e)
      with 2 show ?thesis by (simp add: walk_Fail)
    next
      case (Subst v')
      with 2 have "walk n ls v' D = Some (Inr D')" by (simp add: walk_Subst)
      from revisits_follow [OF Subst Suc.IH(2) [OF this 2(2)]] show ?thesis .
    next
      case (Container a vs)
      show ?thesis
      proof (cases "a \<in> D")
        case True
        with Container show ?thesis by (rule revisits_again)
      next
        case False
        with 2 have "walk_list n ls vs (insert a D) = Some (Inr D')"
          by (simp add: walk_Container [OF Container])
        from revisits_enter [OF Container False L2 [OF this 2(2)]] show ?thesis .
      qed
    qed
  }
qed

lemma walk_list_forest:
  assumes H: "\<And>v D D'. walk n ls v D = Some (Inr D') \<Longrightarrow> \<exists>A. tree ls v A \<and> D \<inter> A = {} \<and> D' = D \<union> A"
  shows "walk_list n ls vs D = Some (Inr D') \<Longrightarrow> \<exists>B. forest ls vs B \<and> D \<inter> B = {} \<and> D' = D \<union> B"
proof (induction vs arbitrary: D)
  case Nil
  then have "forest ls [] {} \<and> D \<inter> {} = {} \<and> D' = D \<union> {}"
    by (simp add: walk_list_Nil forest_nil)
  then show ?case by blast
next
  case (Cons v vs)
  then obtain D1 where 1: "walk n ls v D = Some (Inr D1)"
    and 2: "walk_list n ls vs D1 = Some (Inr D')"
    by (auto simp: walk_list_Cons split: option.splits sum.splits)
  from H [OF 1] obtain A where A: "tree ls v A" "D \<inter> A = {}" "D1 = D \<union> A" by blast
  from Cons.IH [OF 2] obtain B where B: "forest ls vs B" "D1 \<inter> B = {}" "D' = D1 \<union> B" by blast
  have "A \<inter> B = {}" using A(3) B(2) by auto
  then have "forest ls (v # vs) (A \<union> B)" using A(1) B(1) by (intro forest_cons)
  moreover have "D \<inter> (A \<union> B) = {}" using A(2,3) B(2) by auto
  moreover have "D' = D \<union> (A \<union> B)" using A(3) B(3) by auto
  ultimately show ?case by blast
qed

lemma walk_tree:
  "walk n ls v D = Some (Inr D') \<Longrightarrow> \<exists>A. tree ls v A \<and> D \<inter> A = {} \<and> D' = D \<union> A"
proof (induction n arbitrary: v D D')
  case 0
  then show ?case by (simp add: walk_0)
next
  case (Suc n)
  show ?case
  proof (cases ls v rule: visit_cases)
    case (Emit b)
    with Suc.prems have "tree ls v {} \<and> D \<inter> {} = {} \<and> D' = D \<union> {}"
      by (simp add: walk_Emit tree_leaf)
    then show ?thesis by blast
  next
    case (Fail e)
    with Suc.prems show ?thesis by (simp add: walk_Fail)
  next
    case (Subst v')
    with Suc.prems have "walk n ls v' D = Some (Inr D')" by (simp add: walk_Subst)
    from Suc.IH [OF this] obtain A where "tree ls v' A" "D \<inter> A = {}" "D' = D \<union> A" by blast
    with tree_subst [OF Subst] show ?thesis by blast
  next
    case (Container a vs)
    from Suc.prems have a: "a \<notin> D" and w: "walk_list n ls vs (insert a D) = Some (Inr D')"
      by (auto simp: walk_Container [OF Container] split: if_splits)
    from walk_list_forest [of n ls, OF Suc.IH w] obtain B where
      B: "forest ls vs B" "insert a D \<inter> B = {}" "D' = insert a D \<union> B" by blast
    have "a \<notin> B" using B(2) by auto
    then have "tree ls v (insert a B)" using Container B(1) by (intro tree_node)
    moreover have "D \<inter> insert a B = {}" using a B(2) by auto
    moreover have "D' = D \<union> insert a B" using B(3) by auto
    ultimately show ?thesis by blast
  qed
qed

lemma lmEncode_walk_Inl: "(lmEncode n ls v buf D = Some (Inl e)) = (walk n ls v D = Some (Inl e))"
  by (simp only: walk_lmEncode [symmetric, of n ls v D buf] outcome_eq_Inl)

lemma lmEncode_walk_Inr:
  "(\<exists>b. lmEncode n ls v buf D = Some (Inr (b, D'))) = (walk n ls v D = Some (Inr D'))"
  by (simp only: walk_lmEncode [symmetric, of n ls v D buf] outcome_eq_Inr)

lemma walk_list_single: "walk_list n ls [v] D = walk n ls v D"
  by (simp add: walk_list_Cons walk_list_Nil split: option.splits sum.splits)

lemma MsgEncode_Inl: "(MsgEncode n ls v = Some (Inl e)) = (lmEncode n ls v [] {} = Some (Inl e))"
  by (auto simp: MsgEncode_def split: option.splits sum.splits)

lemma MsgEncode_Inr:
  "(MsgEncode n ls v = Some (Inr b)) = (\<exists>d. lmEncode n ls v [] {} = Some (Inr (b, d)))"
  by (auto simp: MsgEncode_def split: option.splits sum.splits)

lemma revisits_lmEncode:
  assumes "revisits ls [v] D"
  shows "\<exists>k. \<forall>n buf. lmEncode (k + n) ls v buf D = Some (Inl ObjectContainedCycle)"
proof -
  from revisits_walk_list [OF assms] obtain k where
    "\<And>n. walk_list (k + n) ls [v] D = Some (Inl ObjectContainedCycle)" by blast
  then have "\<forall>n buf. lmEncode (k + n) ls v buf D = Some (Inl ObjectContainedCycle)"
    by (simp add: walk_list_single lmEncode_walk_Inl)
  then show ?thesis by blast
qed

lemma lmEncode_revisits:
  assumes "lmEncode n ls v buf D = Some (Inl ObjectContainedCycle)"
  shows "revisits ls [v] D"
  using assms unfolding lmEncode_walk_Inl by (rule walk_revisits(1))

lemma lmEncode_tree:
  assumes "lmEncode n ls v buf D = Some (Inr (b, D'))"
  shows "\<exists>A. tree ls v A \<and> D \<inter> A = {} \<and> D' = D \<union> A"
proof -
  from assms have "walk n ls v D = Some (Inr D')"
    unfolding lmEncode_walk_Inr [symmetric, of n ls v D D' buf] by blast
  then show ?thesis by (rule walk_tree)
qed

lemma plain_string_step:
  assumes "builtinMts ls LTString = LNil"
  shows "lmEncode_step ls (LString s) buf =
           (if ValidString s then Emit (Str_PackMsg s buf) else Emit (Bin_PackMsg s buf))"
  using assms by (simp add: lmEncode_step_def GetMetaField_def metatable_def value_step_def)

text \<open>
  C9. Within one encode call, and from the empty set at the top level: (1, 5) if the
  walk meets a container a second time, be it on the path to itself or in another slot,
  the encoding raises the cycle error as soon as the fuel suffices, and the error
  reaches the caller of \<open>MsgEncode\<close>; (2, 6) the cycle error is raised in this case only;
  (3, 7) an encoding that succeeds has walked a tree whose containers are pairwise
  distinct, and the set it leaves is the set it started from and these containers;
  (4, 8) on such a tree the cycle error is not raised, for any fuel. Statements (5) to
  (8) are about \<open>MsgEncode\<close>, which starts every call from the empty set: the
  containers an earlier call has entered play no part in them.
\<close>

theorem cycle_guard:
  "(revisits ls [v] dupe \<longrightarrow>
      (\<exists>k. \<forall>n buf. lmEncode (k + n) ls v buf dupe = Some (Inl ObjectContainedCycle)))
   \<and> (lmEncode n ls v buf dupe = Some (Inl ObjectContainedCycle) \<longrightarrow> revisits ls [v] dupe)
   \<and> (lmEncode n ls v buf dupe = Some (Inr (buf', dupe')) \<longrightarrow>
        (\<exists>A. tree ls v A \<and> dupe \<inter> A = {} \<and> dupe' = dupe \<union> A))
   \<and> (tree ls v A \<and> dupe \<inter> A = {} \<longrightarrow>
        lmEncode n ls v buf dupe \<noteq> Some (Inl ObjectContainedCycle))
   \<and> (revisits ls [v] {} \<longrightarrow>
        (\<exists>k. \<forall>n. MsgEncode (k + n) ls v = Some (Inl ObjectContainedCycle)))
   \<and> (MsgEncode n ls v = Some (Inl ObjectContainedCycle) \<longrightarrow> revisits ls [v] {})
   \<and> (MsgEncode n ls v = Some (Inr buf') \<longrightarrow> (\<exists>A. tree ls v A))
   \<and> (tree ls v A \<longrightarrow> MsgEncode n ls v \<noteq> Some (Inl ObjectContainedCycle))"
proof (intro conjI impI)
  assume "revisits ls [v] dupe"
  then show "\<exists>k. \<forall>n buf. lmEncode (k + n) ls v buf dupe = Some (Inl ObjectContainedCycle)"
    by (rule revisits_lmEncode)
next
  assume "lmEncode n ls v buf dupe = Some (Inl ObjectContainedCycle)"
  then show "revisits ls [v] dupe" by (rule lmEncode_revisits)
next
  assume "lmEncode n ls v buf dupe = Some (Inr (buf', dupe'))"
  then show "\<exists>A. tree ls v A \<and> dupe \<inter> A = {} \<and> dupe' = dupe \<union> A" by (rule lmEncode_tree)
next
  assume "tree ls v A \<and> dupe \<inter> A = {}"
  then have "guard_ok (lmEncode n ls v buf dupe) (dupe \<union> A)"
    using guard_ok_tree_forest(1) by blast
  then show "lmEncode n ls v buf dupe \<noteq> Some (Inl ObjectContainedCycle)"
    by (auto simp: guard_ok_def)
next
  assume "revisits ls [v] {}"
  from revisits_lmEncode [OF this] obtain k where
    "\<And>n buf. lmEncode (k + n) ls v buf {} = Some (Inl ObjectContainedCycle)" by blast
  then have "\<forall>n. MsgEncode (k + n) ls v = Some (Inl ObjectContainedCycle)"
    by (simp add: MsgEncode_Inl)
  then show "\<exists>k. \<forall>n. MsgEncode (k + n) ls v = Some (Inl ObjectContainedCycle)" by blast
next
  assume "MsgEncode n ls v = Some (Inl ObjectContainedCycle)"
  then show "revisits ls [v] {}" unfolding MsgEncode_Inl by (rule lmEncode_revisits)
next
  assume "MsgEncode n ls v = Some (Inr buf')"
  then obtain d where "lmEncode n ls v [] {} = Some (Inr (buf', d))"
    unfolding MsgEncode_Inr by blast
  from lmEncode_tree [OF this] show "\<exists>A. tree ls v A" by blast
next
  assume "tree ls v A"
  then have "guard_ok (lmEncode n ls v [] {}) ({} \<union> A)"
    by (intro guard_ok_tree_forest(1)) simp_all
  then show "MsgEncode n ls v \<noteq> Some (Inl ObjectContainedCycle)"
    by (auto simp: guard_ok_def MsgEncode_def split: option.splits sum.splits)
qed

theorem cycle_guard_witness:
  "revisits cycle_state [LTable 5] {}
   \<and> (\<exists>k. \<forall>n. MsgEncode (k + n) cycle_state (LTable 5) = Some (Inl ObjectContainedCycle))
   \<and> MsgEncode (Suc (Suc 0)) cycle_state (LTable 5) = Some (Inl ObjectContainedCycle)
   \<and> revisits shared_state [LTable 5] {}
   \<and> (\<exists>k. \<forall>n. MsgEncode (k + n) shared_state (LTable 5) = Some (Inl ObjectContainedCycle))
   \<and> MsgEncode (Suc (Suc 0)) shared_state (LTable 5) = Some (Inl ObjectContainedCycle)
   \<and> revisits map_state [LTable 5] {}
   \<and> (\<exists>k. \<forall>n. MsgEncode (k + n) map_state (LTable 5) = Some (Inl ObjectContainedCycle))
   \<and> MsgEncode (Suc (Suc 0)) map_state (LTable 5) = Some (Inl ObjectContainedCycle)
   \<and> revisits map_state [LTable 8] {}
   \<and> (\<exists>k. \<forall>n. MsgEncode (k + n) map_state (LTable 8) = Some (Inl ObjectContainedCycle))
   \<and> MsgEncode (Suc (Suc 0)) map_state (LTable 8) = Some (Inl ObjectContainedCycle)
   \<and> tree distinct_state (LTable 5) {5, 6, 7}
   \<and> (\<forall>n. MsgEncode n distinct_state (LTable 5) \<noteq> Some (Inl ObjectContainedCycle))
   \<and> lmEncode (Suc (Suc 0)) distinct_state (LTable 5) [] {}
        = Some (Inr ([0x92, 0x80, 0x80], {5, 6, 7}))
   \<and> MsgEncode (Suc (Suc 0)) distinct_state (LTable 5) = Some (Inr [0x92, 0x80, 0x80])
   \<and> tree map_state (LTable 9) {9, 6, 7}
   \<and> (\<forall>n. MsgEncode n map_state (LTable 9) \<noteq> Some (Inl ObjectContainedCycle))
   \<and> MsgEncode (Suc (Suc 0)) map_state (LTable 9)
        = Some (Inr [0x82, 0xa1, 0x61, 0x80, 0xa1, 0x62, 0x80])
   \<and> (\<exists>A. tree map_state (LTable 9) A)
   \<and> lmEncode (Suc 0) distinct_state (LTable 6) [] {5, 6, 7} = Some (Inl ObjectContainedCycle)
   \<and> MsgEncode (Suc 0) distinct_state (LTable 6) = Some (Inr [0x80])"
proof -
  have cs: "lmEncode_step cycle_state (LTable a) buf = AsArray a 1" for a buf
    by (subst plain_table_step) (simp_all add: cycle_state_def Len_def)
  have ci: "array_items (heap cycle_state a) 1 = [LTable a]" for a
    by (rule array_items_1) (simp add: cycle_state_def)
  have cv: "visit cycle_state (LTable 5) = Container 5 [LTable 5]"
    by (simp add: visit_def cs ci)
  have cr: "revisits cycle_state [LTable 5] {}"
    by (rule revisits_enter [OF cv]) (simp_all add: revisits_again [OF cv])
  have c1: "\<exists>k. \<forall>n. MsgEncode (k + n) cycle_state (LTable 5) = Some (Inl ObjectContainedCycle)"
    using cycle_guard [of cycle_state "LTable 5"] cr by blast
  have c2: "MsgEncode (Suc (Suc 0)) cycle_state (LTable 5) = Some (Inl ObjectContainedCycle)"
    by (simp add: MsgEncode_def lmEncode.simps cs ci markDupe_def)
  have s5: "lmEncode_step shared_state (LTable 5) buf = AsArray 5 2" for buf
    by (subst plain_table_step) (simp_all add: shared_state_def Len_def)
  have s6: "lmEncode_step shared_state (LTable 6) buf = AsMap 6" for buf
    by (subst plain_table_step) (simp_all add: shared_state_def Len_def empty_table_def)
  have si: "array_items (heap shared_state 5) 2 = [LTable 6, LTable 6]"
    by (rule array_items_2) (simp add: shared_state_def)
  have sf: "ForEach (heap shared_state 6) = []"
    by (simp add: ForEach_def shared_state_def empty_table_def)
  have sv5: "visit shared_state (LTable 5) = Container 5 [LTable 6, LTable 6]"
    by (simp add: visit_def s5 si)
  have sv6: "visit shared_state (LTable 6) = Container 6 []"
    by (simp add: visit_def s6 sf entry_items_def)
  have "revisits shared_state ([] @ [LTable 6]) (insert 6 (insert 5 {}))"
    by (simp add: revisits_again [OF sv6])
  then have "revisits shared_state ([LTable 6, LTable 6] @ []) (insert 5 {})"
    using revisits_enter [OF sv6, of "insert 5 {}" "[LTable 6]"] by simp
  then have sr: "revisits shared_state [LTable 5] {}"
    using revisits_enter [OF sv5, of "{}" "[]"] by simp
  have s1: "\<exists>k. \<forall>n. MsgEncode (k + n) shared_state (LTable 5) = Some (Inl ObjectContainedCycle)"
    using cycle_guard [of shared_state "LTable 5"] sr by blast
  have s2: "MsgEncode (Suc (Suc 0)) shared_state (LTable 5) = Some (Inl ObjectContainedCycle)"
    by (simp add: MsgEncode_def lmEncode.simps s5 s6 si sf markDupe_def)
  have mb: "builtinMts map_state LTString = LNil" by (simp add: map_state_def)
  have ma: "lmEncode_step map_state (LString (str ''a'')) buf = Emit (buf @ [0xa1, 0x61])" for buf
    by (simp add: plain_string_step [OF mb] str_def Str_PackMsg_def)
  have mbb: "lmEncode_step map_state (LString (str ''b'')) buf = Emit (buf @ [0xa1, 0x62])" for buf
    by (simp add: plain_string_step [OF mb] str_def Str_PackMsg_def)
  have m5: "lmEncode_step map_state (LTable 5) buf = AsMap 5" for buf
    by (subst plain_table_step) (simp_all add: map_state_def Len_def)
  have m6: "lmEncode_step map_state (LTable 6) buf = AsMap 6" for buf
    by (subst plain_table_step) (simp_all add: map_state_def Len_def empty_table_def)
  have m7: "lmEncode_step map_state (LTable 7) buf = AsMap 7" for buf
    by (subst plain_table_step) (simp_all add: map_state_def Len_def empty_table_def)
  have m8: "lmEncode_step map_state (LTable 8) buf = AsMap 8" for buf
    by (subst plain_table_step) (simp_all add: map_state_def Len_def)
  have m9: "lmEncode_step map_state (LTable 9) buf = AsMap 9" for buf
    by (subst plain_table_step) (simp_all add: map_state_def Len_def)
  have f5: "ForEach (heap map_state 5) = [(LString (str ''a''), LTable 5)]"
    by (simp add: ForEach_def map_state_def)
  have f6: "ForEach (heap map_state 6) = []" and f7: "ForEach (heap map_state 7) = []"
    by (simp_all add: ForEach_def map_state_def empty_table_def)
  have f8: "ForEach (heap map_state 8)
              = [(LString (str ''a''), LTable 6), (LString (str ''b''), LTable 6)]"
    by (simp add: ForEach_def map_state_def)
  have f9: "ForEach (heap map_state 9)
              = [(LString (str ''a''), LTable 6), (LString (str ''b''), LTable 7)]"
    by (simp add: ForEach_def map_state_def)
  have mv5: "visit map_state (LTable 5) = Container 5 [LString (str ''a''), LTable 5]"
    by (simp add: visit_def m5 f5 entry_items_def)
  have mv6: "visit map_state (LTable 6) = Container 6 []"
    by (simp add: visit_def m6 f6 entry_items_def)
  have mv7: "visit map_state (LTable 7) = Container 7 []"
    by (simp add: visit_def m7 f7 entry_items_def)
  have mv8: "visit map_state (LTable 8)
               = Container 8 [LString (str ''a''), LTable 6, LString (str ''b''), LTable 6]"
    by (simp add: visit_def m8 f8 entry_items_def)
  have mv9: "visit map_state (LTable 9)
               = Container 9 [LString (str ''a''), LTable 6, LString (str ''b''), LTable 7]"
    by (simp add: visit_def m9 f9 entry_items_def)
  have "revisits map_state [LTable 5] (insert 5 {})"
    by (simp add: revisits_again [OF mv5])
  then have "revisits map_state ([LString (str ''a''), LTable 5] @ []) (insert 5 {})"
    using revisits_pass [OF ma [of "[]"]] by simp
  then have mr5: "revisits map_state [LTable 5] {}"
    using revisits_enter [OF mv5, of "{}" "[]"] by simp
  have "revisits map_state [LTable 6] (insert 6 (insert 8 {}))"
    by (simp add: revisits_again [OF mv6])
  then have "revisits map_state ([] @ [LString (str ''b''), LTable 6]) (insert 6 (insert 8 {}))"
    using revisits_pass [OF mbb [of "[]"]] by simp
  then have "revisits map_state [LTable 6, LString (str ''b''), LTable 6] (insert 8 {})"
    using revisits_enter [OF mv6, of "insert 8 {}" "[LString (str ''b''), LTable 6]"] by simp
  then have "revisits map_state
      ([LString (str ''a''), LTable 6, LString (str ''b''), LTable 6] @ []) (insert 8 {})"
    using revisits_pass [OF ma [of "[]"]] by simp
  then have mr8: "revisits map_state [LTable 8] {}"
    using revisits_enter [OF mv8, of "{}" "[]"] by simp
  have m51: "\<exists>k. \<forall>n. MsgEncode (k + n) map_state (LTable 5) = Some (Inl ObjectContainedCycle)"
    using cycle_guard [of map_state "LTable 5"] mr5 by blast
  have m81: "\<exists>k. \<forall>n. MsgEncode (k + n) map_state (LTable 8) = Some (Inl ObjectContainedCycle)"
    using cycle_guard [of map_state "LTable 8"] mr8 by blast
  have m52: "MsgEncode (Suc (Suc 0)) map_state (LTable 5) = Some (Inl ObjectContainedCycle)"
    by (simp add: MsgEncode_def lmEncode.simps m5 ma f5 markDupe_def)
  have m82: "MsgEncode (Suc (Suc 0)) map_state (LTable 8) = Some (Inl ObjectContainedCycle)"
    by (simp add: MsgEncode_def lmEncode.simps m8 m6 ma mbb f8 f6 markDupe_def)
  have d5: "lmEncode_step distinct_state (LTable 5) buf = AsArray 5 2" for buf
    by (subst plain_table_step) (simp_all add: distinct_state_def Len_def)
  have d6: "lmEncode_step distinct_state (LTable 6) buf = AsMap 6" for buf
    by (subst plain_table_step) (simp_all add: distinct_state_def Len_def empty_table_def)
  have d7: "lmEncode_step distinct_state (LTable 7) buf = AsMap 7" for buf
    by (subst plain_table_step) (simp_all add: distinct_state_def Len_def empty_table_def)
  have di: "array_items (heap distinct_state 5) 2 = [LTable 6, LTable 7]"
    by (rule array_items_2) (simp add: distinct_state_def)
  have fe: "ForEach (heap distinct_state 6) = []" "ForEach (heap distinct_state 7) = []"
    by (simp_all add: ForEach_def distinct_state_def empty_table_def)
  have t6: "tree distinct_state (LTable 6) (insert 6 {})"
    by (rule tree_node [OF _ forest_nil]) (simp_all add: visit_def d6 fe entry_items_def)
  have t7: "tree distinct_state (LTable 7) (insert 7 {})"
    by (rule tree_node [OF _ forest_nil]) (simp_all add: visit_def d7 fe entry_items_def)
  have f: "forest distinct_state [LTable 6, LTable 7] (insert 6 {} \<union> (insert 7 {} \<union> {}))"
    by (intro forest_cons t6 t7 forest_nil) simp_all
  have "tree distinct_state (LTable 5) (insert 5 (insert 6 {} \<union> (insert 7 {} \<union> {})))"
    by (rule tree_node [OF _ f]) (simp_all add: visit_def d5 di)
  moreover have "insert 5 (insert 6 {} \<union> (insert 7 {} \<union> {})) = {5, 6, 7 :: nat}" by auto
  ultimately have t: "tree distinct_state (LTable 5) {5, 6, 7}" by (simp only:)
  have e: "lmEncode (Suc (Suc 0)) distinct_state (LTable 5) [] {}
             = Some (Inr ([0x92, 0x80, 0x80], {5, 6, 7}))"
    by (simp add: lmEncode.simps d5 d6 d7 di fe markDupe_def array_header_def map_header_def
          insert_commute)
  then have m: "MsgEncode (Suc (Suc 0)) distinct_state (LTable 5) = Some (Inr [0x92, 0x80, 0x80])"
    by (simp add: MsgEncode_def)
  have dn: "\<forall>n. MsgEncode n distinct_state (LTable 5) \<noteq> Some (Inl ObjectContainedCycle)"
    using cycle_guard [of distinct_state "LTable 5" _ _ _ _ _ "{5, 6, 7}"] t by blast
  have me: "MsgEncode (Suc (Suc 0)) map_state (LTable 9)
              = Some (Inr [0x82, 0xa1, 0x61, 0x80, 0xa1, 0x62, 0x80])"
    by (simp add: MsgEncode_def lmEncode.simps m9 m6 m7 ma mbb f9 f6 f7 markDupe_def
          map_header_def)
  have mt: "\<exists>A. tree map_state (LTable 9) A"
    using cycle_guard [of map_state "LTable 9" _ "Suc (Suc 0)" _
                           "[0x82, 0xa1, 0x61, 0x80, 0xa1, 0x62, 0x80]"] me by blast
  have ta: "tree map_state (LString (str ''a'')) {}" "tree map_state (LString (str ''b'')) {}"
    by (rule tree_leaf, simp add: visit_def ma mbb)+
  have u6: "tree map_state (LTable 6) (insert 6 {})"
    by (rule tree_node [OF mv6 forest_nil]) simp
  have u7: "tree map_state (LTable 7) (insert 7 {})"
    by (rule tree_node [OF mv7 forest_nil]) simp
  have mf: "forest map_state [LString (str ''a''), LTable 6, LString (str ''b''), LTable 7]
              ({} \<union> (insert 6 {} \<union> ({} \<union> (insert 7 {} \<union> {}))))"
    by (intro forest_cons ta u6 u7 forest_nil) simp_all
  have "tree map_state (LTable 9) (insert 9 ({} \<union> (insert 6 {} \<union> ({} \<union> (insert 7 {} \<union> {})))))"
    by (rule tree_node [OF mv9 mf]) simp
  moreover have "insert 9 ({} \<union> (insert 6 {} \<union> ({} \<union> (insert 7 {} \<union> {})))) = {9, 6, 7 :: nat}"
    by auto
  ultimately have t9: "tree map_state (LTable 9) {9, 6, 7}" by (simp only:)
  have mn: "\<forall>n. MsgEncode n map_state (LTable 9) \<noteq> Some (Inl ObjectContainedCycle)"
    using cycle_guard [of map_state "LTable 9" _ _ _ _ _ "{9, 6, 7}"] t9 by blast
  have a1: "lmEncode (Suc 0) distinct_state (LTable 6) [] {5, 6, 7}
              = Some (Inl ObjectContainedCycle)"
    by (simp add: lmEncode.simps d6 markDupe_def)
  have a2: "MsgEncode (Suc 0) distinct_state (LTable 6) = Some (Inr [0x80])"
    by (simp add: MsgEncode_def lmEncode.simps d6 fe markDupe_def map_header_def)
  from cr c1 c2 sr s1 s2 mr5 m51 m52 mr8 m81 m82 t dn e m t9 mn me mt a1 a2 show ?thesis
    by (simp only: simp_thms)
qed

section \<open>Numbers\<close>

subsection \<open>The fields of a double\<close>

lemma unat_lt64: "unat (w :: 64 word) < 2 ^ 64"
  using unsigned_less [of w, where 'a = nat] by simp

lemma f64_frac_unat: "f64_frac w = unat w mod 2 ^ 52"
  by (simp add: f64_frac_def unsigned_take_bit_eq take_bit_nat_def)

lemma f64_exp_unat: "f64_exp w = unat w div 2 ^ 52 mod 2 ^ 11"
  by (simp add: f64_exp_def unsigned_take_bit_eq unat_drop_bit_eq take_bit_nat_def drop_bit_nat_def)

lemma f64_sign_unat: "f64_sign w = (2 ^ 63 \<le> unat w)"
proof -
  have "bit w 63 = bit (unat w) 63" by (simp add: bit_unsigned_iff)
  also have "\<dots> = odd (unat w div 2 ^ 63)" by (simp add: bit_nat_def)
  also have "\<dots> = (2 ^ 63 \<le> unat w)"
  proof -
    have "unat w div 2 ^ 63 < 2" using unat_lt64 [of w] by (simp add: less_mult_imp_div_less)
    moreover have "(1 \<le> unat w div 2 ^ 63) = (2 ^ 63 \<le> unat w)"
      by (simp add: less_eq_div_iff_mult_less_eq)
    ultimately show ?thesis by (cases "unat w div 2 ^ 63 = 0") auto
  qed
  finally show ?thesis by (simp add: f64_sign_def)
qed

lemma f64_frac_lt: "f64_frac w < 2 ^ 52"
  by (simp add: f64_frac_unat)

lemma f64_exp_lt: "f64_exp w < 2048"
  by (simp add: f64_exp_unat)

lemma fields_nat:
  assumes "N < 2 ^ 64"
  shows "(N::nat) = (if 2 ^ 63 \<le> N then 2 ^ 63 else 0) + (N div 2 ^ 52 mod 2 ^ 11) * 2 ^ 52
                     + N mod 2 ^ 52"
proof -
  define a where "a = N div 2 ^ 52"
  define b where "b = N mod 2 ^ 52"
  define d where "d = a mod 2 ^ 11"
  define c where "c = a div 2 ^ 11"
  have N: "N = a * 2 ^ 52 + b" by (simp add: a_def b_def)
  have a: "a = c * 2 ^ 11 + d" by (simp add: c_def d_def)
  have "a < 2 ^ 12" using assms unfolding a_def by (simp add: less_mult_imp_div_less)
  then have "c < 2" unfolding c_def by (simp add: less_mult_imp_div_less)
  have ge: "(2 ^ 63 \<le> N) = (2 ^ 11 \<le> a)"
    unfolding a_def by (simp add: less_eq_div_iff_mult_less_eq)
  have "(2 ^ 11 \<le> a) = (1 \<le> c)"
    unfolding c_def by (simp add: less_eq_div_iff_mult_less_eq)
  then have c: "c = (if 2 ^ 11 \<le> a then 1 else 0)"
    using \<open>c < 2\<close> by auto
  have "N = c * 2 ^ 63 + d * 2 ^ 52 + b" unfolding N a by (simp add: algebra_simps)
  then show ?thesis
    unfolding ge c by (auto simp add: a_def b_def d_def split: if_splits)
qed

lemma f64_unat_fields:
  "unat w = sign_bit (f64_sign w) + f64_exp w * 2 ^ 52 + f64_frac w"
  unfolding f64_sign_unat f64_exp_unat f64_frac_unat sign_bit_def
  by (rule fields_nat [OF unat_lt64])

lemma f64_fields_eqI:
  assumes "f64_sign v = f64_sign w" "f64_exp v = f64_exp w" "f64_frac v = f64_frac w"
  shows "v = w"
proof -
  have "unat v = unat w" using assms by (simp add: f64_unat_fields)
  then show ?thesis by (rule unsigned_word_eqI)
qed

lemma f64_of_fields:
  assumes "E < 2048" "fr < 2 ^ 52"
  shows "f64_sign (of_nat (sign_bit s + E * 2 ^ 52 + fr)) = s"
    and "f64_exp (of_nat (sign_bit s + E * 2 ^ 52 + fr)) = E"
    and "f64_frac (of_nat (sign_bit s + E * 2 ^ 52 + fr)) = fr"
proof -
  let ?X = "sign_bit s + E * 2 ^ 52 + fr"
  have lo: "E * 2 ^ 52 + fr < 2 ^ 63"
  proof -
    have "E * 2 ^ 52 \<le> 2047 * 2 ^ 52" using assms(1) by simp
    then show ?thesis using assms(2) by simp
  qed
  then have X: "?X < 2 ^ 64" by (simp add: sign_bit_def)
  then have u: "unat (of_nat ?X :: 64 word) = ?X"
    by (simp add: unat_of_nat del: of_nat_add of_nat_mult)
  have s63: "sign_bit s = (if s then 2 ^ 11 else 0) * 2 ^ 52" by (simp add: sign_bit_def)
  have Xe: "?X = ((if s then 2 ^ 11 else 0) + E) * 2 ^ 52 + fr"
    unfolding s63 by (simp add: algebra_simps)
  have Xd: "?X div 2 ^ 52 = (if s then 2 ^ 11 else 0) + E"
    unfolding Xe using assms(2) by (simp del: power_numeral)
  have Xm: "?X mod 2 ^ 52 = fr"
    unfolding Xe using assms(2) by (simp del: power_numeral)
  have Xs: "(2 ^ 63 \<le> ?X) = s"
    using lo by (simp add: sign_bit_def)
  show "f64_sign (of_nat ?X) = s"
    by (simp only: f64_sign_unat u Xs)
  show "f64_exp (of_nat ?X) = E"
    using assms(1) by (simp only: f64_exp_unat u Xd) simp
  show "f64_frac (of_nat ?X) = fr"
    by (simp only: f64_frac_unat u Xm)
qed

subsection \<open>Integers to doubles\<close>

lemma pow2_le_nonzero: "2 ^ k \<le> n \<Longrightarrow> (n::nat) \<noteq> 0"
proof -
  assume a: "2 ^ k \<le> n"
  have "(0::nat) < 2 ^ k" by simp
  with a show ?thesis by linarith
qed

lemma bitlen_eq: "2 ^ k \<le> n \<Longrightarrow> n < 2 ^ Suc k \<Longrightarrow> bitlen n = Suc k"
proof (induction k arbitrary: n)
  case 0
  then have "n = 1" by simp
  then show ?case by (simp add: bitlen.simps)
next
  case (Suc k)
  then have n: "n \<noteq> 0" using pow2_le_nonzero by blast
  have "2 ^ k \<le> n div 2" using Suc.prems(1) by simp
  moreover have "n div 2 < 2 ^ Suc k" using Suc.prems(2) by simp
  ultimately have "bitlen (n div 2) = Suc k" by (rule Suc.IH)
  then show ?case using n by (subst bitlen.simps) simp
qed

lemma round_shift_exact: "round_shift (m * 2 ^ s) s = m"
  by (simp add: round_shift_def)

lemma mag_to_f64_small:
  assumes "2 ^ k \<le> n" "n < 2 ^ Suc k" "k \<le> 52"
  shows "mag_to_f64 n = (1023 + k) * 2 ^ 52 + (n * 2 ^ (52 - k) - 2 ^ 52)"
proof -
  have "n \<noteq> 0" using assms(1) by (rule pow2_le_nonzero)
  moreover have "bitlen n = Suc k" using assms(1,2) by (rule bitlen_eq)
  ultimately show ?thesis using assms(3) by (simp add: mag_to_f64_def)
qed

lemma mag_to_f64_scaled:
  assumes "2 ^ 52 \<le> m" "m < 2 ^ 53"
  shows "mag_to_f64 (m * 2 ^ j) = (1075 + j) * 2 ^ 52 + (m - 2 ^ 52)"
proof -
  have 1: "2 ^ (52 + j) \<le> m * 2 ^ j" using assms(1) by (simp add: power_add)
  have 2: "m * 2 ^ j < 2 ^ Suc (52 + j)"
  proof -
    have "m * 2 ^ j < 2 ^ 53 * 2 ^ j" using assms(2) by simp
    then show ?thesis by (simp add: power_add)
  qed
  have n0: "m * 2 ^ j \<noteq> 0" using 1 by (rule pow2_le_nonzero)
  have b: "bitlen (m * 2 ^ j) = Suc (52 + j)" using 1 2 by (rule bitlen_eq)
  show ?thesis
  proof (cases "j = 0")
    case True
    then show ?thesis using n0 b by (simp add: mag_to_f64_def)
  next
    case False
    then show ?thesis using n0 b by (simp add: mag_to_f64_def round_shift_exact)
  qed
qed

subsection \<open>Doubles that are integers\<close>

lemma pow2_split: "a \<le> u \<Longrightarrow> (2::int) ^ u = 2 ^ (u - a) * 2 ^ a"
  by (simp add: power_add [symmetric])

lemma f64_mant_lt: "f64_mant v < 2 ^ 53"
  using f64_frac_lt [of v] by (simp add: f64_mant_def)

lemma f64_mant_zero_iff: "(f64_mant v = 0) = (f64_exp v = 0 \<and> f64_frac v = 0)"
  by (simp add: f64_mant_def)

lemma f64_mant_normal: "f64_exp v \<noteq> 0 \<Longrightarrow> f64_mant v = 2 ^ 52 + f64_frac v"
  by (simp add: f64_mant_def)

lemma f64_ulp_exp_normal: "f64_exp v \<noteq> 0 \<Longrightarrow> f64_ulp_exp v = f64_exp v"
  by (simp add: f64_ulp_exp_def)

lemma f64_ulp_exp_pos: "0 < f64_ulp_exp v"
  by (simp add: f64_ulp_exp_def)

lemma f64_trunc_mag_high:
  "1075 \<le> f64_ulp_exp v \<Longrightarrow> f64_trunc_mag v = f64_mant v * 2 ^ (f64_ulp_exp v - 1075)"
  by (simp add: f64_trunc_mag_def Let_def)

lemma f64_trunc_mag_low:
  "f64_ulp_exp v < 1075 \<Longrightarrow> f64_trunc_mag v = f64_mant v div 2 ^ (1075 - f64_ulp_exp v)"
  by (simp add: f64_trunc_mag_def Let_def)

lemma f64_trunc_sgn:
  "f64_trunc v = (if f64_sign v then - 1 else 1) * int (f64_trunc_mag v)"
  by (simp add: f64_trunc_def)

text \<open>A double that is an integer is the integer its truncation gives.\<close>

lemma f64_is_integer_trunc:
  assumes "f64_is_integer v n"
  shows "n = f64_trunc v"
proof -
  define sg :: int where "sg = (if f64_sign v then - 1 else 1)"
  define m where "m = f64_mant v"
  define u where "u = f64_ulp_exp v"
  have sg2: "sg * sg = 1" by (simp add: sg_def)
  have eq: "sg * int m * 2 ^ u = n * 2 ^ 1075"
    using assms by (simp add: f64_is_integer_def sg_def m_def u_def)
  show ?thesis
  proof (cases "1075 \<le> u")
    case True
    then have "(2::int) ^ u = 2 ^ (u - 1075) * 2 ^ 1075" by (rule pow2_split)
    with eq have "(sg * int m * 2 ^ (u - 1075)) * 2 ^ 1075 = n * (2 ^ 1075 :: int)"
      by (simp only: mult.assoc)
    then have "sg * int m * 2 ^ (u - 1075) = n"
      by (simp only: mult_cancel_right) simp
    then show ?thesis
      using True by (simp add: f64_trunc_sgn f64_trunc_mag_high sg_def m_def u_def)
  next
    case False
    then have "u \<le> 1075" by simp
    then have p: "(2::int) ^ 1075 = 2 ^ (1075 - u) * 2 ^ u" by (rule pow2_split)
    from eq have "(sg * int m) * 2 ^ u = (n * 2 ^ (1075 - u)) * (2 ^ u :: int)"
      by (simp only: p mult.assoc)
    then have e2: "sg * int m = n * 2 ^ (1075 - u)"
      by (simp only: mult_cancel_right) simp
    have "int m = sg * (sg * int m)" using sg2 by (simp add: mult.assoc [symmetric])
    also have "\<dots> = (sg * n) * 2 ^ (1075 - u)" by (simp only: e2 mult.assoc)
    finally have "int m div 2 ^ (1075 - u) = sg * n" by simp
    then have "int (m div 2 ^ (1075 - u)) = sg * n" by (simp add: zdiv_int)
    then have "sg * int (m div 2 ^ (1075 - u)) = n"
      using sg2 by (simp add: mult.assoc [symmetric])
    then show ?thesis
      using False by (simp add: f64_trunc_sgn f64_trunc_mag_low sg_def m_def u_def)
  qed
qed

text \<open>Whether the truncation is the value: always from the exponent 1075 on, below it when
  the bits that the truncation drops are 0.\<close>

lemma f64_is_integer_trunc_iff:
  assumes "f64_exp v \<noteq> 2047"
  shows "f64_is_integer v (f64_trunc v) =
           (1075 \<le> f64_ulp_exp v \<or> 2 ^ (1075 - f64_ulp_exp v) dvd f64_mant v)"
proof -
  define sg :: int where "sg = (if f64_sign v then - 1 else 1)"
  define m where "m = f64_mant v"
  define u where "u = f64_ulp_exp v"
  have sg0: "sg \<noteq> 0" by (simp add: sg_def)
  have I: "f64_is_integer v (f64_trunc v) = (sg * int m * 2 ^ u = f64_trunc v * 2 ^ 1075)"
    using assms by (simp add: f64_is_integer_def sg_def m_def u_def)
  show ?thesis
  proof (cases "1075 \<le> u")
    case True
    then have "(2::int) ^ u = 2 ^ (u - 1075) * 2 ^ 1075" by (rule pow2_split)
    then have "sg * int m * 2 ^ u = f64_trunc v * 2 ^ 1075"
      using True by (simp add: f64_trunc_sgn f64_trunc_mag_high sg_def m_def u_def)
    then show ?thesis using True I by (simp add: u_def)
  next
    case False
    define sh where "sh = 1075 - u"
    have "u \<le> 1075" using False by simp
    then have p: "(2::int) ^ 1075 = 2 ^ sh * 2 ^ u"
      unfolding sh_def by (rule pow2_split)
    have t: "f64_trunc v = sg * int (m div 2 ^ sh)"
      using False by (simp add: f64_trunc_sgn f64_trunc_mag_low sg_def m_def u_def sh_def)
    have "(sg * int m * 2 ^ u = f64_trunc v * 2 ^ 1075)
            = ((sg * int m) * 2 ^ u = (sg * int (m div 2 ^ sh) * 2 ^ sh) * (2 ^ u :: int))"
      by (simp only: t p mult.assoc)
    also have "\<dots> = (sg * int m = sg * int (m div 2 ^ sh) * 2 ^ sh)"
      by (simp only: mult_cancel_right) simp
    also have "\<dots> = (int m = int (m div 2 ^ sh) * 2 ^ sh)"
      using sg0 by (simp only: mult.assoc mult_cancel_left) simp
    also have "\<dots> = (int m = int (m div 2 ^ sh * 2 ^ sh))" by simp
    also have "\<dots> = (m = m div 2 ^ sh * 2 ^ sh)" by (rule of_nat_eq_iff)
    also have "\<dots> = (2 ^ sh dvd m)"
    proof
      assume "m = m div 2 ^ sh * 2 ^ sh"
      then have "m = 2 ^ sh * (m div 2 ^ sh)" by (simp only: mult.commute)
      then show "2 ^ sh dvd m" by (rule dvdI)
    next
      assume "2 ^ sh dvd m"
      then show "m = m div 2 ^ sh * 2 ^ sh" by (simp only: dvd_div_mult_self)
    qed
    finally have "(sg * int m * 2 ^ u = f64_trunc v * 2 ^ 1075) = (2 ^ sh dvd m)" .
    with False I show ?thesis by (simp only: u_def m_def sh_def) simp
  qed
qed

lemma f64_low_lt: "f64_exp v * 2 ^ 52 + f64_frac v < 2 ^ 63"
proof -
  have "f64_exp v \<le> 2047" using f64_exp_lt [of v] by simp
  then have "f64_exp v * 2 ^ 52 \<le> 2047 * 2 ^ 52" by simp
  then show ?thesis using f64_frac_lt [of v] by simp
qed

lemma mod_add_base: "y < b \<Longrightarrow> (b + y) mod b = (y::nat)"
  by simp

lemma f64_take63_zero: "(take_bit 63 v = 0) = (f64_exp v = 0 \<and> f64_frac v = 0)"
proof -
  have "(take_bit 63 v = 0) = (unat (take_bit 63 v) = 0)" by (simp add: unat_eq_0)
  also have "\<dots> = (unat v mod 2 ^ 63 = 0)"
    by (simp add: unsigned_take_bit_eq take_bit_nat_def)
  also have "unat v mod 2 ^ 63 = f64_exp v * 2 ^ 52 + f64_frac v"
  proof (cases "f64_sign v")
    case True
    have "unat v = 2 ^ 63 + (f64_exp v * 2 ^ 52 + f64_frac v)"
      using True by (simp add: f64_unat_fields [of v] sign_bit_def)
    then show ?thesis using mod_add_base [OF f64_low_lt [of v]] by (simp only:)
  next
    case False
    have "unat v = f64_exp v * 2 ^ 52 + f64_frac v"
      using False by (simp add: f64_unat_fields [of v] sign_bit_def)
    then show ?thesis using f64_low_lt [of v] by (simp only: mod_less)
  qed
  finally show ?thesis by simp
qed

lemma f64_of_unat_fields:
  "of_nat (sign_bit (f64_sign v) + f64_exp v * 2 ^ 52 + f64_frac v) = v"
  by (simp only: f64_unat_fields [symmetric]) simp

lemma f64_finite_not_NaN: "f64_exp v \<noteq> 2047 \<Longrightarrow> \<not> f64_isNaN v"
  by (simp add: f64_isNaN_def)

text \<open>The pattern that \<open>int64(v)\<close> gives when the value does not fit, as a double.\<close>

lemma int_to_f64_min: "int_to_f64 (sint (0x8000000000000000 :: 64 word)) = 0xC3E0000000000000"
  by (simp add: int_to_f64_def mag_to_f64_def bitlen.simps round_shift_def Let_def)

lemma f64_min_fields:
  "f64_exp 0xC3E0000000000000 = 1086" "f64_frac 0xC3E0000000000000 = 0"
  "f64_trunc 0xC3E0000000000000 = - (2 ^ 63)" "take_bit 63 (0xC3E0000000000000 :: 64 word) \<noteq> 0"
  by (simp_all add: f64_defs)

lemma int_to_f64_sgn:
  assumes "0 < mag"
  shows "int_to_f64 ((if s then - 1 else 1) * int mag) = of_nat (sign_bit s + mag_to_f64 mag)"
  using assms by (cases s) (simp_all add: int_to_f64_def sign_bit_def)

lemma int_to_f64_trunc:
  assumes "0 < f64_trunc_mag v"
  shows "int_to_f64 (f64_trunc v)
           = of_nat (sign_bit (f64_sign v) + mag_to_f64 (f64_trunc_mag v))"
  unfolding f64_trunc_sgn using assms by (rule int_to_f64_sgn)

text \<open>From the exponent 1075 on the value is an integer, and converting it back is exact.\<close>

lemma int_to_f64_trunc_high:
  assumes "f64_exp v \<noteq> 2047" "1075 \<le> f64_ulp_exp v"
  shows "int_to_f64 (f64_trunc v) = v"
proof -
  have e0: "f64_exp v \<noteq> 0" using assms(2) by (auto simp: f64_ulp_exp_def split: if_splits)
  have u: "f64_ulp_exp v = f64_exp v" using e0 by (rule f64_ulp_exp_normal)
  have m: "f64_mant v = 2 ^ 52 + f64_frac v" using e0 by (rule f64_mant_normal)
  have m1: "2 ^ 52 \<le> f64_mant v" by (simp add: m)
  have mag: "f64_trunc_mag v = f64_mant v * 2 ^ (f64_exp v - 1075)"
    using assms(2) by (simp add: f64_trunc_mag_high u)
  have pos: "0 < f64_trunc_mag v" unfolding mag using m1 by simp
  have "mag_to_f64 (f64_trunc_mag v) = (1075 + (f64_exp v - 1075)) * 2 ^ 52 + (f64_mant v - 2 ^ 52)"
    unfolding mag using m1 f64_mant_lt by (rule mag_to_f64_scaled)
  also have "\<dots> = f64_exp v * 2 ^ 52 + f64_frac v"
    using assms(2) by (simp add: u m)
  finally have "int_to_f64 (f64_trunc v)
      = of_nat (sign_bit (f64_sign v) + (f64_exp v * 2 ^ 52 + f64_frac v))"
    by (simp only: int_to_f64_trunc [OF pos])
  then show ?thesis by (simp only: add.assoc [symmetric] f64_of_unat_fields)
qed

text \<open>Below the exponent 1075, with an integer part that is not 0.\<close>

lemma int_to_f64_trunc_low:
  assumes "f64_ulp_exp v < 1075" "0 < f64_trunc_mag v"
  shows "f64_exp v \<noteq> 0" "1023 \<le> f64_exp v"
    and "f64_trunc_mag v * 2 ^ (1075 - f64_exp v) - 2 ^ 52 < 2 ^ 52"
    and "int_to_f64 (f64_trunc v)
           = of_nat (sign_bit (f64_sign v) + f64_exp v * 2 ^ 52
                     + (f64_trunc_mag v * 2 ^ (1075 - f64_exp v) - 2 ^ 52))"
    and "(f64_trunc_mag v * 2 ^ (1075 - f64_exp v) - 2 ^ 52 = f64_frac v)
           = (2 ^ (1075 - f64_exp v) dvd f64_mant v)"
proof -
  define sh where "sh = 1075 - f64_ulp_exp v"
  define m where "m = f64_mant v"
  have mag: "f64_trunc_mag v = m div 2 ^ sh"
    using assms(1) by (simp add: f64_trunc_mag_low sh_def m_def)
  have m53: "m < 2 ^ 53" unfolding m_def by (rule f64_mant_lt)
  have "2 ^ sh \<le> m"
  proof (rule ccontr)
    assume "\<not> 2 ^ sh \<le> m"
    then have "m div 2 ^ sh = 0" by simp
    with assms(2) mag show False by simp
  qed
  then have "(2::nat) ^ sh < 2 ^ 53" using m53 by linarith
  then have sh: "sh < 53" using power_less_imp_less_exp [of 2 sh 53] by simp
  then have u: "1023 \<le> f64_ulp_exp v" unfolding sh_def using assms(1) by linarith
  then show e0: "f64_exp v \<noteq> 0" by (auto simp: f64_ulp_exp_def split: if_splits)
  then have ue: "f64_ulp_exp v = f64_exp v" by (rule f64_ulp_exp_normal)
  show e: "1023 \<le> f64_exp v" using u ue by simp
  have she: "sh = 1075 - f64_exp v" by (simp add: sh_def ue)
  have mn: "m = 2 ^ 52 + f64_frac v" unfolding m_def using e0 by (rule f64_mant_normal)
  define k where "k = f64_exp v - 1023"
  have ks: "k + sh = 52" using e assms(1) by (simp add: k_def she ue)
  have p52: "(2::nat) ^ 52 = 2 ^ k * 2 ^ sh" by (simp only: power_add [symmetric] ks)
  have p53: "(2::nat) ^ 53 = 2 ^ Suc k * 2 ^ sh"
  proof -
    have "Suc k + sh = 53" using ks by simp
    then show ?thesis by (simp only: power_add [symmetric])
  qed
  have lo: "2 ^ k \<le> m div 2 ^ sh"
  proof -
    have "2 ^ 52 \<le> m" using mn by simp
    then have "2 ^ k * 2 ^ sh \<le> m" by (simp only: p52)
    then show ?thesis by (simp add: less_eq_div_iff_mult_less_eq)
  qed
  have hi: "m div 2 ^ sh < 2 ^ Suc k"
  proof -
    have "m < 2 ^ Suc k * 2 ^ sh" using m53 by (simp only: p53)
    then show ?thesis by (simp add: less_mult_imp_div_less)
  qed
  have k52: "k \<le> 52" using ks by simp
  have shk: "52 - k = sh" using ks by simp
  have ek: "1023 + k = f64_exp v" using e by (simp add: k_def)
  have back_le: "m div 2 ^ sh * 2 ^ sh \<le> m" by simp
  have back_ge: "2 ^ 52 \<le> m div 2 ^ sh * 2 ^ sh"
  proof -
    have "2 ^ k * 2 ^ sh \<le> m div 2 ^ sh * 2 ^ sh" using lo by simp
    then show ?thesis by (simp only: p52)
  qed
  show "f64_trunc_mag v * 2 ^ (1075 - f64_exp v) - 2 ^ 52 < 2 ^ 52"
    unfolding mag she [symmetric] using le_less_trans [OF back_le m53] by simp
  have "mag_to_f64 (m div 2 ^ sh) = (1023 + k) * 2 ^ 52 + (m div 2 ^ sh * 2 ^ (52 - k) - 2 ^ 52)"
    using lo hi k52 by (rule mag_to_f64_small)
  then have "mag_to_f64 (f64_trunc_mag v)
               = f64_exp v * 2 ^ 52 + (f64_trunc_mag v * 2 ^ sh - 2 ^ 52)"
    by (simp only: mag shk ek)
  then show "int_to_f64 (f64_trunc v)
           = of_nat (sign_bit (f64_sign v) + f64_exp v * 2 ^ 52
                     + (f64_trunc_mag v * 2 ^ (1075 - f64_exp v) - 2 ^ 52))"
    by (simp only: int_to_f64_trunc [OF assms(2)] she add.assoc)
  have "(m div 2 ^ sh * 2 ^ sh - 2 ^ 52 = f64_frac v) = (m div 2 ^ sh * 2 ^ sh = m)"
    using back_ge mn by auto
  also have "\<dots> = (2 ^ sh dvd m)"
  proof
    assume "m div 2 ^ sh * 2 ^ sh = m"
    then have "m = 2 ^ sh * (m div 2 ^ sh)" by (simp only: mult.commute)
    then show "2 ^ sh dvd m" by (rule dvdI)
  next
    assume "2 ^ sh dvd m"
    then show "m div 2 ^ sh * 2 ^ sh = m" by (simp only: dvd_div_mult_self)
  qed
  finally show "(f64_trunc_mag v * 2 ^ (1075 - f64_exp v) - 2 ^ 52 = f64_frac v)
           = (2 ^ (1075 - f64_exp v) dvd f64_mant v)"
    by (simp only: mag she m_def)
qed

lemma f64_to_int64_in_range:
  assumes "f64_exp v \<noteq> 2047" "- (2 ^ 63) \<le> f64_trunc v" "f64_trunc v < 2 ^ 63"
  shows "f64_to_int64 v = of_int (f64_trunc v)" and "sint (f64_to_int64 v) = f64_trunc v"
proof -
  show 1: "f64_to_int64 v = of_int (f64_trunc v)"
    using assms by (simp add: f64_to_int64_def Let_def)
  have "signed_take_bit 63 (f64_trunc v) = f64_trunc v"
    using assms(2,3) by (rule signed_take_bit_int_eq_self)
  then show "sint (f64_to_int64 v) = f64_trunc v"
    by (simp add: 1 sint_sbintrunc')
qed

lemma f64_to_int64_out:
  assumes "f64_exp v = 2047 \<or> f64_trunc v < - (2 ^ 63) \<or> 2 ^ 63 \<le> f64_trunc v"
  shows "f64_to_int64 v = 0x8000000000000000"
  using assms by (auto simp add: f64_to_int64_def Let_def)

lemma f64_eq_zero_iff:
  assumes "f64_exp v \<noteq> 2047"
  shows "f64_eq v 0 = (f64_mant v = 0)"
proof -
  have z: "\<not> f64_isNaN 0" by (simp add: f64_isNaN_def f64_exp_def)
  have "v = 0 \<Longrightarrow> take_bit 63 v = 0" by simp
  then have "f64_eq v 0 = (take_bit 63 v = 0)"
    using f64_finite_not_NaN [OF assms] z by (auto simp: f64_eq_def)
  then show ?thesis by (simp add: f64_take63_zero f64_mant_zero_iff)
qed

lemma f64_eq_self: "f64_exp v \<noteq> 2047 \<Longrightarrow> f64_eq v v"
  by (simp add: f64_eq_def f64_finite_not_NaN)

lemma f64_eq_normal:
  assumes "f64_exp v \<noteq> 2047" "f64_exp v \<noteq> 0" "fr < 2 ^ 52"
  shows "f64_eq v (of_nat (sign_bit (f64_sign v) + f64_exp v * 2 ^ 52 + fr)) = (fr = f64_frac v)"
proof -
  let ?w = "of_nat (sign_bit (f64_sign v) + f64_exp v * 2 ^ 52 + fr) :: 64 word"
  have E: "f64_exp v < 2048" by (rule f64_exp_lt)
  note fw = f64_of_fields [OF E assms(3), of "f64_sign v"]
  have nw: "\<not> f64_isNaN ?w" using assms(1) by (simp only: f64_isNaN_def fw(2)) simp
  have nz: "take_bit 63 v \<noteq> 0" using assms(2) by (simp add: f64_take63_zero)
  have "f64_eq v ?w = (v = ?w)"
    using f64_finite_not_NaN [OF assms(1)] nw nz by (simp add: f64_eq_def)
  also have "\<dots> = (fr = f64_frac v)"
  proof
    assume "v = ?w"
    then have "f64_frac v = f64_frac ?w" by simp
    then show "fr = f64_frac v" by (simp only: fw(3))
  next
    assume a: "fr = f64_frac v"
    show "v = ?w" unfolding a by (rule f64_of_unat_fields [symmetric])
  qed
  finally show ?thesis .
qed

text \<open>
  The test \<open>v == LNumber(int64(v))\<close> of the source holds exactly for the doubles whose
  value is an integer of the \<open>int64\<close> range.
\<close>

lemma f64_int64_roundtrip_iff:
  "f64_eq v (int_to_f64 (sint (f64_to_int64 v)))
     = (\<exists>n. f64_is_integer v n \<and> - (2 ^ 63) \<le> n \<and> n < 2 ^ 63)"
proof (cases "f64_exp v = 2047 \<or> f64_trunc v < - (2 ^ 63) \<or> 2 ^ 63 \<le> f64_trunc v")
  case True
  have w: "int_to_f64 (sint (f64_to_int64 v)) = 0xC3E0000000000000"
    by (simp only: f64_to_int64_out [OF True] int_to_f64_min)
  have "\<not> f64_eq v 0xC3E0000000000000"
  proof
    assume "f64_eq v 0xC3E0000000000000"
    then have "v = 0xC3E0000000000000" using f64_min_fields(4) by (simp add: f64_eq_def)
    then have "f64_exp v = 1086" "f64_trunc v = - (2 ^ 63)" by (simp_all only: f64_min_fields)
    with True show False by simp
  qed
  moreover have "\<not> (\<exists>n. f64_is_integer v n \<and> - (2 ^ 63) \<le> n \<and> n < 2 ^ 63)"
  proof
    assume "\<exists>n. f64_is_integer v n \<and> - (2 ^ 63) \<le> n \<and> n < 2 ^ 63"
    then obtain n where n: "f64_is_integer v n" "- (2 ^ 63) \<le> n" "n < 2 ^ 63" by blast
    from n(1) have "f64_exp v \<noteq> 2047" by (simp add: f64_is_integer_def)
    moreover from n(1) have "n = f64_trunc v" by (rule f64_is_integer_trunc)
    ultimately show False using True n(2,3) by simp
  qed
  ultimately show ?thesis by (simp only: w)
next
  case False
  then have fin: "f64_exp v \<noteq> 2047"
    and lo: "- (2 ^ 63) \<le> f64_trunc v" and hi: "f64_trunc v < 2 ^ 63" by simp_all
  have s: "sint (f64_to_int64 v) = f64_trunc v" using fin lo hi by (rule f64_to_int64_in_range)
  have R: "(\<exists>n. f64_is_integer v n \<and> - (2 ^ 63) \<le> n \<and> n < 2 ^ 63)
             = f64_is_integer v (f64_trunc v)"
    using lo hi f64_is_integer_trunc by blast
  note T = f64_is_integer_trunc_iff [OF fin]
  show ?thesis
  proof (cases "1075 \<le> f64_ulp_exp v")
    case True
    have "int_to_f64 (f64_trunc v) = v" using fin True by (rule int_to_f64_trunc_high)
    then show ?thesis using True f64_eq_self [OF fin] by (simp only: s R T) simp
  next
    case low: False
    then have u: "f64_ulp_exp v < 1075" by simp
    show ?thesis
    proof (cases "f64_trunc_mag v = 0")
      case True
      then have t0: "f64_trunc v = 0" by (simp add: f64_trunc_def)
      have i0: "int_to_f64 0 = 0" by (simp add: int_to_f64_def mag_to_f64_def)
      have "f64_mant v div 2 ^ (1075 - f64_ulp_exp v) = 0"
        using True u by (simp only: f64_trunc_mag_low)
      then have "f64_mant v < 2 ^ (1075 - f64_ulp_exp v)" by (simp add: div_eq_0_iff)
      then have "(2 ^ (1075 - f64_ulp_exp v) dvd f64_mant v) = (f64_mant v = 0)"
        using dvd_imp_le [of "2 ^ (1075 - f64_ulp_exp v)" "f64_mant v"] by auto
      then have r: "(\<exists>n. f64_is_integer v n \<and> - (2 ^ 63) \<le> n \<and> n < 2 ^ 63) = (f64_mant v = 0)"
        using low by (simp only: R T) simp
      have l: "f64_eq v (int_to_f64 (sint (f64_to_int64 v))) = (f64_mant v = 0)"
        by (simp only: s t0 i0 f64_eq_zero_iff [OF fin])
      show ?thesis by (simp only: l r)
    next
      case False
      then have pos: "0 < f64_trunc_mag v" by simp
      note L = int_to_f64_trunc_low [OF u pos]
      have ue: "f64_ulp_exp v = f64_exp v" using L(1) by (rule f64_ulp_exp_normal)
      have "f64_eq v (int_to_f64 (f64_trunc v))
              = (f64_trunc_mag v * 2 ^ (1075 - f64_exp v) - 2 ^ 52 = f64_frac v)"
        by (simp only: L(4) f64_eq_normal [OF fin L(1) L(3)])
      also have "\<dots> = (2 ^ (1075 - f64_exp v) dvd f64_mant v)" by (rule L(5))
      finally show ?thesis using low by (simp only: s R T ue) simp
    qed
  qed
qed

lemma f64_int64_value:
  assumes "f64_is_integer v n" "- (2 ^ 63) \<le> n" "n < 2 ^ 63"
  shows "f64_to_int64 v = of_int n"
proof -
  have t: "n = f64_trunc v" using assms(1) by (rule f64_is_integer_trunc)
  have "f64_exp v \<noteq> 2047" using assms(1) by (simp add: f64_is_integer_def)
  then show ?thesis using assms(2,3) unfolding t by (rule f64_to_int64_in_range)
qed

subsection \<open>The encoding of a number\<close>

lemma length_F32_PackMsg: "length (F32_PackMsg f buf) = length buf + 5"
  by (simp add: F32_PackMsg_def AppendUint32_def)

lemma length_F64_PackMsg: "length (F64_PackMsg f buf) = length buf + 9"
  by (simp add: F64_PackMsg_def AppendUint64_def)

lemma lmEncode_plain_number:
  assumes "\<not> has_override ls (LNumber v)"
  shows "lmEncode (Suc k) ls (LNumber v) buf dupe =
     (if \<exists>n. f64_is_integer v n \<and> - (2 ^ 63) \<le> n \<and> n < 2 ^ 63
        then Some (Inr (Signed_PackMsg (f64_to_int64 v) buf, dupe))
      else if f64_eq v (f32_to_f64 (f64_to_f32 v))
        then Some (Inr (F32_PackMsg (f64_to_f32 v) buf, dupe))
      else Some (Inr (F64_PackMsg v buf, dupe)))"
  unfolding f64_int64_roundtrip_iff [symmetric]
  using assms by (simp add: lmEncode.simps step_plain value_step_def number_step_def)

text \<open>
  C7. A number without an override is encoded as follows. If its value is an integer
  \<open>n\<close> of the \<open>int64\<close> range, the signed-integer packer packs \<open>n\<close>. Otherwise, if the
  number is equal to itself converted to \<open>float32\<close> and back, the encoding is the marker
  \<open>0xca\<close> and the 4 bytes of the \<open>float32\<close>, most significant first: 5 bytes. Otherwise
  it is the marker \<open>0xcb\<close> and the 8 bytes of the double: 9 bytes. (The conversion
  \<open>int64(v)\<close> is the one of amd64 where Go leaves it to the implementation.)
\<close>

theorem encode_number:
  assumes "\<not> has_override ls (LNumber v)"
  shows
   "(\<forall>n. f64_is_integer v n \<and> - (2 ^ 63) \<le> n \<and> n < 2 ^ 63 \<longrightarrow>
        lmEncode (Suc k) ls (LNumber v) buf dupe
          = Some (Inr (Signed_PackMsg (of_int n) buf, dupe)))
    \<and> (\<not> (\<exists>n. f64_is_integer v n \<and> - (2 ^ 63) \<le> n \<and> n < 2 ^ 63)
         \<and> f64_eq v (f32_to_f64 (f64_to_f32 v)) \<longrightarrow>
        lmEncode (Suc k) ls (LNumber v) buf dupe
          = Some (Inr (F32_PackMsg (f64_to_f32 v) buf, dupe))
        \<and> F32_PackMsg (f64_to_f32 v) buf = buf @ [0xca] @ AppendUint32 [] (f64_to_f32 v)
        \<and> length (F32_PackMsg (f64_to_f32 v) buf) = length buf + 5)
    \<and> (\<not> (\<exists>n. f64_is_integer v n \<and> - (2 ^ 63) \<le> n \<and> n < 2 ^ 63)
         \<and> \<not> f64_eq v (f32_to_f64 (f64_to_f32 v)) \<longrightarrow>
        lmEncode (Suc k) ls (LNumber v) buf dupe = Some (Inr (F64_PackMsg v buf, dupe))
        \<and> F64_PackMsg v buf = buf @ [0xcb] @ AppendUint64 [] v
        \<and> length (F64_PackMsg v buf) = length buf + 9)"
proof (intro conjI allI impI)
  fix n
  assume a: "f64_is_integer v n \<and> - (2 ^ 63) \<le> n \<and> n < 2 ^ 63"
  then have "f64_to_int64 v = of_int n" using f64_int64_value by blast
  moreover from a have "\<exists>n. f64_is_integer v n \<and> - (2 ^ 63) \<le> n \<and> n < 2 ^ 63" by blast
  ultimately show "lmEncode (Suc k) ls (LNumber v) buf dupe
          = Some (Inr (Signed_PackMsg (of_int n) buf, dupe))"
    by (simp only: lmEncode_plain_number [OF assms] if_True)
next
  assume a: "\<not> (\<exists>n. f64_is_integer v n \<and> - (2 ^ 63) \<le> n \<and> n < 2 ^ 63)
         \<and> f64_eq v (f32_to_f64 (f64_to_f32 v))"
  then have c1: "\<not> (\<exists>n. f64_is_integer v n \<and> - (2 ^ 63) \<le> n \<and> n < 2 ^ 63)"
    and c2: "f64_eq v (f32_to_f64 (f64_to_f32 v))" by blast+
  show "lmEncode (Suc k) ls (LNumber v) buf dupe
          = Some (Inr (F32_PackMsg (f64_to_f32 v) buf, dupe))"
    using c1 c2 by (simp only: lmEncode_plain_number [OF assms] if_False if_True)
next
  assume a: "\<not> (\<exists>n. f64_is_integer v n \<and> - (2 ^ 63) \<le> n \<and> n < 2 ^ 63)
         \<and> \<not> f64_eq v (f32_to_f64 (f64_to_f32 v))"
  then have c1: "\<not> (\<exists>n. f64_is_integer v n \<and> - (2 ^ 63) \<le> n \<and> n < 2 ^ 63)"
    and c2: "\<not> f64_eq v (f32_to_f64 (f64_to_f32 v))" by blast+
  show "lmEncode (Suc k) ls (LNumber v) buf dupe = Some (Inr (F64_PackMsg v buf, dupe))"
    using c1 c2 by (simp only: lmEncode_plain_number [OF assms] if_False)
qed (simp_all add: length_F32_PackMsg length_F64_PackMsg F32_PackMsg_def F64_PackMsg_def
       AppendUint32_def AppendUint64_def)

theorem encode_number_witness:
  "\<not> has_override plain_state (LNumber 0x4024000000000000)
   \<and> f64_is_integer 0x4024000000000000 10 \<and> - (2 ^ 63) \<le> (10::int) \<and> (10::int) < 2 ^ 63
   \<and> lmEncode (Suc 0) plain_state (LNumber 0x4024000000000000) [] {} = Some (Inr ([10], {}))
   \<and> \<not> (\<exists>n. f64_is_integer 0x4025000000000000 n \<and> - (2 ^ 63) \<le> n \<and> n < 2 ^ 63)
   \<and> f64_eq 0x4025000000000000 (f32_to_f64 (f64_to_f32 0x4025000000000000))
   \<and> lmEncode (Suc 0) plain_state (LNumber 0x4025000000000000) [] {}
        = Some (Inr ([0xca, 0x41, 0x28, 0, 0], {}))
   \<and> \<not> (\<exists>n. f64_is_integer 0x4024333333333333 n \<and> - (2 ^ 63) \<le> n \<and> n < 2 ^ 63)
   \<and> \<not> f64_eq 0x4024333333333333 (f32_to_f64 (f64_to_f32 0x4024333333333333))
   \<and> lmEncode (Suc 0) plain_state (LNumber 0x4024333333333333) [] {}
        = Some (Inr ([0xcb, 0x40, 0x24, 0x33, 0x33, 0x33, 0x33, 0x33, 0x33], {}))"
proof -
  have p: "\<not> has_override plain_state (LNumber v)" for v
    by (simp add: has_override_def GetMetaField_def metatable_def plain_state_def)
  have i10: "f64_is_integer 0x4024000000000000 10"
    by (simp add: f64_is_integer_def f64_defs)
  have n105: "\<not> (\<exists>n. f64_is_integer 0x4025000000000000 n \<and> - (2 ^ 63) \<le> n \<and> n < 2 ^ 63)"
    unfolding f64_int64_roundtrip_iff [symmetric] by (simp add: f64_defs)
  have r105: "f64_eq 0x4025000000000000 (f32_to_f64 (f64_to_f32 0x4025000000000000))"
    by (simp add: f64_defs)
  have n101: "\<not> (\<exists>n. f64_is_integer 0x4024333333333333 n \<and> - (2 ^ 63) \<le> n \<and> n < 2 ^ 63)"
    unfolding f64_int64_roundtrip_iff [symmetric] by (simp add: f64_defs)
  have r101: "\<not> f64_eq 0x4024333333333333 (f32_to_f64 (f64_to_f32 0x4024333333333333))"
    by (simp add: f64_defs)
  have s10: "Signed_PackMsg (of_int 10) [] = [10]" by (simp add: Signed_PackMsg_def)
  have f105: "F32_PackMsg (f64_to_f32 0x4025000000000000) [] = [0xca, 0x41, 0x28, 0, 0]"
    by (simp add: F32_PackMsg_def AppendUint32_def f64_defs)
  have f101: "F64_PackMsg 0x4024333333333333 []
                = [0xcb, 0x40, 0x24, 0x33, 0x33, 0x33, 0x33, 0x33, 0x33]"
    by (simp add: F64_PackMsg_def AppendUint64_def)
  have r10: "- (2 ^ 63) \<le> (10::int) \<and> (10::int) < 2 ^ 63" by simp
  from encode_number [where v = "0x4024000000000000" and k = 0 and buf = "[]" and dupe = "{}", OF p]
    i10 r10
  have "lmEncode (Suc 0) plain_state (LNumber 0x4024000000000000) [] {}
          = Some (Inr (Signed_PackMsg (of_int 10) [], {}))"
    by blast
  then have e10: "lmEncode (Suc 0) plain_state (LNumber 0x4024000000000000) [] {}
          = Some (Inr ([10], {}))"
    by (simp only: s10)
  from encode_number [where v = "0x4025000000000000" and k = 0 and buf = "[]" and dupe = "{}", OF p]
    n105 r105
  have "lmEncode (Suc 0) plain_state (LNumber 0x4025000000000000) [] {}
          = Some (Inr (F32_PackMsg (f64_to_f32 0x4025000000000000) [], {}))"
    by blast
  then have e105: "lmEncode (Suc 0) plain_state (LNumber 0x4025000000000000) [] {}
        = Some (Inr ([0xca, 0x41, 0x28, 0, 0], {}))"
    by (simp only: f105)
  from encode_number [where v = "0x4024333333333333" and k = 0 and buf = "[]" and dupe = "{}", OF p]
    n101 r101
  have "lmEncode (Suc 0) plain_state (LNumber 0x4024333333333333) [] {}
          = Some (Inr (F64_PackMsg 0x4024333333333333 [], {}))"
    by blast
  then have e101: "lmEncode (Suc 0) plain_state (LNumber 0x4024333333333333) [] {}
        = Some (Inr ([0xcb, 0x40, 0x24, 0x33, 0x33, 0x33, 0x33, 0x33, 0x33], {}))"
    by (simp only: f101)
  show ?thesis using p i10 r10 n105 r105 n101 r101 e10 e105 e101 by blast
qed

end
